theory Spec2Isabelle
  imports Complex_Main "HOL-Library.AList" "HOL-Library.Multiset"
begin

text \<open>
  A model of \<open>export.py\<close>, the script that exports the history of Slack conversations to
  text files: the resolution of mentions (\<open>resolve_text\<close>), the four paginated fetches
  (\<open>fetch_user_map\<close>, \<open>fetch_all_channels\<close>, \<open>fetch_thread\<close>, \<open>fetch_channel_structured\<close>) and
  the writing of a channel (\<open>fmt_ts\<close>, \<open>write_channel\<close>). The definitions follow the source
  function by function; the notions that only the statements and proofs need come
  after them, and then the proofs, one section for each part of the program.
\<close>

section \<open>Mention resolution (\<open>resolve_text\<close>)\<close>

text \<open>
  Python strings are modelled as \<open>string\<close> (lists of bytes of the UTF-8 text). The three
  regular expressions of \<open>resolve_text\<close> only mention ASCII characters, and no byte of a
  multi-byte UTF-8 sequence is an ASCII character, so matching on bytes finds the same
  tokens as matching on code points.

  A dictionary \<open>d\<close> is a map; \<open>d.get(k, default)\<close> is \<open>dict_get\<close>.
\<close>

definition dict_get :: "('k \<rightharpoonup> 'v) \<Rightarrow> 'k \<Rightarrow> 'v \<Rightarrow> 'v" where
  "dict_get d k dflt = (case d k of Some v \<Rightarrow> v | None \<Rightarrow> dflt)"

text \<open>The character class \<open>[A-Z0-9]\<close>.\<close>

definition id_char :: "char \<Rightarrow> bool" where
  "id_char c \<longleftrightarrow>
     (65 \<le> (of_char c :: nat) \<and> (of_char c :: nat) \<le> 90) \<or>
     (48 \<le> (of_char c :: nat) \<and> (of_char c :: nat) \<le> 57)"

text \<open>
  \<open>[A-Z0-9]+>\<close> at the head of a text: the longest run of class characters, which must be
  non-empty and followed by \<open>>\<close>. (The greedy run is the only candidate: a shorter run is
  followed by a class character, never by \<open>>\<close>.) The result is the run.
\<close>

definition id_run :: "string \<Rightarrow> string option" where
  "id_run cs =
     (let run = takeWhile id_char cs
      in if run \<noteq> [] \<and> take 1 (dropWhile id_char cs) = ''>'' then Some run else None)"

text \<open>A literal prefix of a pattern: the text after it, when the text starts with it.\<close>

fun strip_prefix :: "string \<Rightarrow> string \<Rightarrow> string option" where
  "strip_prefix [] s = Some s"
| "strip_prefix (p # ps) [] = None"
| "strip_prefix (p # ps) (c # cs) = (if p = c then strip_prefix ps cs else None)"

text \<open>
  The three patterns, matched at the head of a text. Each returns \<open>m.group(1)\<close> and the
  length of the whole match.
  \<^item> \<^verbatim>\<open><@([UW][A-Z0-9]+)>\<close>
  \<^item> \<^verbatim>\<open><(U[A-Z0-9]+)>\<close>
  \<^item> \<^verbatim>\<open><!subteam\^([A-Z0-9]+)>\<close>
\<close>

definition match_user_ref :: "string \<Rightarrow> (string \<times> nat) option" where
  "match_user_ref txt =
     (case strip_prefix ''<@'' txt of
        Some (c # cs) \<Rightarrow>
          if c = CHR ''U'' \<or> c = CHR ''W''
          then (case id_run cs of Some run \<Rightarrow> Some (c # run, length run + 4) | None \<Rightarrow> None)
          else None
      | _ \<Rightarrow> None)"

definition match_plain_ref :: "string \<Rightarrow> (string \<times> nat) option" where
  "match_plain_ref txt =
     (case strip_prefix ''<'' txt of
        Some (c # cs) \<Rightarrow>
          if c = CHR ''U''
          then (case id_run cs of Some run \<Rightarrow> Some (c # run, length run + 3) | None \<Rightarrow> None)
          else None
      | _ \<Rightarrow> None)"

definition match_group_ref :: "string \<Rightarrow> (string \<times> nat) option" where
  "match_group_ref txt =
     (case strip_prefix ''<!subteam^'' txt of
        Some cs \<Rightarrow> (case id_run cs of Some run \<Rightarrow> Some (run, length run + 11) | None \<Rightarrow> None)
      | None \<Rightarrow> None)"

text \<open>
  \<open>re.sub(pattern, repl, txt)\<close> with a callable \<open>repl\<close>: scan from the left; where the
  pattern matches, emit the replacement of the group and continue after the match;
  elsewhere copy one character. None of the three patterns matches the empty string.
\<close>

function re_sub :: "(string \<Rightarrow> (string \<times> nat) option) \<Rightarrow> (string \<Rightarrow> string) \<Rightarrow> string \<Rightarrow> string" where
  "re_sub mt repl [] = []"
| "re_sub mt repl (c # cs) =
     (case mt (c # cs) of
        None \<Rightarrow> c # re_sub mt repl cs
      | Some (g, n) \<Rightarrow> repl g @ re_sub mt repl (drop (n - 1) cs))"
  by pat_completeness auto
termination
  by (relation "measure (\<lambda>(mt, repl, t). length t)") auto

definition resolve_text :: "string \<Rightarrow> (string \<rightharpoonup> string) \<Rightarrow> (string \<rightharpoonup> string) \<Rightarrow> string" where
  "resolve_text txt user_map group_map =
     (let txt1 = re_sub match_user_ref (\<lambda>g. ''@'' @ dict_get user_map g g) txt;
          txt2 = re_sub match_plain_ref (\<lambda>g. ''<'' @ dict_get user_map g g @ ''>'') txt1;
          txt3 = re_sub match_group_ref (\<lambda>g. ''@'' @ dict_get group_map g g) txt2
      in txt3)"

text \<open>
  A text contains a token of a pattern when the pattern matches at the head of one of its
  suffixes.
\<close>

fun has_match :: "(string \<Rightarrow> (string \<times> nat) option) \<Rightarrow> string \<Rightarrow> bool" where
  "has_match mt [] = False"
| "has_match mt (c # cs) = (mt (c # cs) \<noteq> None \<or> has_match mt cs)"

definition has_mention :: "string \<Rightarrow> bool" where
  "has_mention txt \<longleftrightarrow>
     has_match match_user_ref txt \<or> has_match match_plain_ref txt \<or> has_match match_group_ref txt"

text \<open>The identifiers the three patterns capture, as predicates on the captured group.\<close>

definition is_user_id :: "string \<Rightarrow> bool" where
  "is_user_id i =
     (case i of
        [] \<Rightarrow> False
      | c # run \<Rightarrow> (c = CHR ''U'' \<or> c = CHR ''W'') \<and> run \<noteq> [] \<and> list_all id_char run)"

definition is_plain_id :: "string \<Rightarrow> bool" where
  "is_plain_id i =
     (case i of
        [] \<Rightarrow> False
      | c # run \<Rightarrow> c = CHR ''U'' \<and> run \<noteq> [] \<and> list_all id_char run)"

definition is_group_id :: "string \<Rightarrow> bool" where
  "is_group_id g = (g \<noteq> [] \<and> list_all id_char g)"

text \<open>
  Display names that the later passes of \<open>resolve_text\<close> cannot read as markup: after a
  user reference, a name that holds no \<open><\<close>; after a plain reference, a name that holds
  no \<open><\<close> and does not start with \<open>!\<close>. \<open>known_as P d k\<close>: the name \<open>d\<close> gives to \<open>k\<close>, if it
  gives one, satisfies \<open>P\<close>.
\<close>

definition no_angle :: "string \<Rightarrow> bool" where
  "no_angle n = (CHR ''<'' \<notin> set n)"

definition plain_name :: "string \<Rightarrow> bool" where
  "plain_name n = (CHR ''<'' \<notin> set n \<and> take 1 n \<noteq> ''!'')"

definition known_as :: "(string \<Rightarrow> bool) \<Rightarrow> (string \<rightharpoonup> string) \<Rightarrow> string \<Rightarrow> bool" where
  "known_as P d k = (case d k of None \<Rightarrow> True | Some n \<Rightarrow> P n)"

section \<open>The data model\<close>

text \<open>
  The dictionaries of the API, with the keys the program reads. A key read with
  \<open>d["k"]\<close> is a field; a key read with \<open>d.get("k")\<close> or tested with \<open>"k" in d\<close> is an
  optional field.
\<close>

record user =
  u_id :: string
  u_real_name :: "string option"
  u_name :: "string option"

record message =
  m_ts :: string
  m_thread_ts :: "string option"
  m_subtype :: "string option"
  m_text :: "string option"
  m_user :: "string option"

text \<open>
  A successful response: the listed items and
  \<open>r.get("response_metadata", {}).get("next_cursor")\<close>.
\<close>

record 'a page =
  items :: 'a
  next_cursor :: "string option"

text \<open>
  A \<open>SlackApiError\<close>: \<open>e.response["error"]\<close> and the \<open>Retry-After\<close> header of
  \<open>e.response.headers\<close>, which is absent, a text \<open>int()\<close> reads as an integer, or a text
  \<open>int()\<close> rejects.
\<close>

datatype retry_after_header = No_header | Header_int int | Header_other

datatype slack_api_error = SlackApiError (error_code: string) (retry_after: retry_after_header)

text \<open>A call of the client returns a page or raises.\<close>

datatype 'a api_result = Returns "'a page" | Raises slack_api_error

text \<open>What leaves a function of the program: its return value, or an exception it does not catch.\<close>

datatype exn = Slack_api_error slack_api_error | Value_error

datatype 'a outcome = Returned 'a | Raised exn

text \<open>
  What the program does to the outside, in order: the requests it sends (with the
  arguments that vary; \<open>limit\<close> is a constant of each call site), the sleeps, and the
  lines it prints.
\<close>

datatype request =
    Users_list "string option"
  | Conversations_list string "string option"
  | Conversations_history string "string option" int int
  | Conversations_replies string string "string option"

datatype console =
    Users_rate_limited int
  | Users_failed slack_api_error
  | Fetching_thread string
  | Thread_rate_limited nat nat int
  | Replies_failed slack_api_error
  | History_rate_limited int
  | History_failed slack_api_error

datatype event = Call request | Sleep rat | Print console

text \<open>\<open>not cursor\<close>: the cursor is \<open>None\<close> or the empty string.\<close>

definition falsy :: "string option \<Rightarrow> bool" where
  "falsy c = (c = None \<or> c = Some [])"

text \<open>\<open>a or b\<close> on an optional string \<open>a\<close>.\<close>

definition py_or :: "string option \<Rightarrow> string \<Rightarrow> string" where
  "py_or a b = (case a of None \<Rightarrow> b | Some s \<Rightarrow> if s = [] then b else s)"

text \<open>\<open>int(e.response.headers.get("Retry-After", dflt))\<close>; \<open>None\<close> is a \<open>ValueError\<close>.\<close>

definition int_header :: "retry_after_header \<Rightarrow> int \<Rightarrow> int option" where
  "int_header h dflt = (case h of No_header \<Rightarrow> Some dflt | Header_int n \<Rightarrow> Some n | Header_other \<Rightarrow> None)"

section \<open>The paginated fetches\<close>

text \<open>
  The server is modelled by the answers it gives to the successive calls of an endpoint,
  a list. A loop takes the head of the list at each call; the requests it sends, its
  sleeps and its prints are appended to a log. A run that needs more answers than the
  list holds has not finished: its value is \<open>None\<close>. Otherwise the value is the outcome,
  the answers left and the log.
\<close>

subsection \<open>\<open>fetch_user_map\<close>\<close>

definition add_member :: "(string \<rightharpoonup> string) \<Rightarrow> user \<Rightarrow> (string \<rightharpoonup> string)" where
  "add_member m u = m(u_id u \<mapsto> py_or (u_real_name u) (py_or (u_name u) (u_id u)))"

fun fetch_user_map_loop ::
  "(string \<rightharpoonup> string) \<Rightarrow> string option \<Rightarrow> int \<Rightarrow> user list api_result list \<Rightarrow> event list \<Rightarrow>
     ((string \<rightharpoonup> string) outcome \<times> user list api_result list \<times> event list) option" where
  "fetch_user_map_loop m cursor backoff [] evs = None"
| "fetch_user_map_loop m cursor backoff (r # rs) evs =
     (let evs1 = evs @ [Call (Users_list cursor)] in
      case r of
        Returns p \<Rightarrow>
          (let m' = foldl add_member m (items p);
               cursor' = next_cursor p
           in if falsy cursor' then Some (Returned m', rs, evs1)
              else fetch_user_map_loop m' cursor' 10 rs evs1)
      | Raises e \<Rightarrow>
          if error_code e = ''ratelimited'' then
            (case int_header (retry_after e) backoff of
               None \<Rightarrow> Some (Raised Value_error, rs, evs1)
             | Some wait \<Rightarrow>
                 (let evs2 = evs1 @ [Print (Users_rate_limited wait)] in
                  if wait < 0 then Some (Raised Value_error, rs, evs2)
                  else fetch_user_map_loop m cursor (min (backoff * 2) 120) rs
                         (evs2 @ [Sleep (of_int wait)])))
          else Some (Returned m, rs, evs1 @ [Print (Users_failed e)]))"

definition fetch_user_map ::
  "user list api_result list \<Rightarrow> event list \<Rightarrow>
     ((string \<rightharpoonup> string) outcome \<times> user list api_result list \<times> event list) option" where
  "fetch_user_map rs evs = fetch_user_map_loop Map.empty None 10 rs evs"

subsection \<open>\<open>fetch_all_channels\<close>\<close>

text \<open>The loop has no \<open>try\<close>: a \<open>SlackApiError\<close> of the call leaves the function.\<close>

fun fetch_all_channels_loop ::
  "string \<Rightarrow> 'c list \<Rightarrow> string option \<Rightarrow> 'c list api_result list \<Rightarrow> event list \<Rightarrow>
     ('c list outcome \<times> 'c list api_result list \<times> event list) option" where
  "fetch_all_channels_loop types channels cursor [] evs = None"
| "fetch_all_channels_loop types channels cursor (r # rs) evs =
     (let evs1 = evs @ [Call (Conversations_list types cursor)] in
      case r of
        Raises e \<Rightarrow> Some (Raised (Slack_api_error e), rs, evs1)
      | Returns p \<Rightarrow>
          (let channels' = channels @ items p;
               cursor' = next_cursor p
           in if falsy cursor' then Some (Returned channels', rs, evs1)
              else fetch_all_channels_loop types channels' cursor' rs evs1))"

definition fetch_all_channels ::
  "string \<Rightarrow> 'c list api_result list \<Rightarrow> event list \<Rightarrow>
     ('c list outcome \<times> 'c list api_result list \<times> event list) option" where
  "fetch_all_channels types rs evs = fetch_all_channels_loop types [] None rs evs"

subsection \<open>\<open>fetch_thread\<close>\<close>

text \<open>
  \<open>r.get("messages", [])[1:]\<close>: the page's messages are an optional field here.
  \<open>time.sleep\<close> raises \<open>ValueError\<close> on a negative duration; the \<open>except\<close> clause only
  catches \<open>SlackApiError\<close>.
\<close>

fun fetch_thread_loop ::
  "string \<Rightarrow> string \<Rightarrow> nat \<Rightarrow> nat \<Rightarrow> rat \<Rightarrow> bool \<Rightarrow> message list \<Rightarrow> string option \<Rightarrow>
     message list option api_result list \<Rightarrow> event list \<Rightarrow>
     (message list outcome \<times> message list option api_result list \<times> event list) option" where
  "fetch_thread_loop channel_id parent_ts idx n_threads thread_sleep verbose replies cursor [] evs = None"
| "fetch_thread_loop channel_id parent_ts idx n_threads thread_sleep verbose replies cursor (r # rs) evs =
     (let evs0 = (if verbose then evs @ [Print (Fetching_thread parent_ts)] else evs);
          evs1 = evs0 @ [Call (Conversations_replies channel_id parent_ts cursor)]
      in
      case r of
        Returns p \<Rightarrow>
          (let replies' = replies @ drop 1 (case items p of None \<Rightarrow> [] | Some ms \<Rightarrow> ms);
               cursor' = next_cursor p
           in if falsy cursor' then Some (Returned replies', rs, evs1)
              else if thread_sleep < 0 then Some (Raised Value_error, rs, evs1)
              else fetch_thread_loop channel_id parent_ts idx n_threads thread_sleep verbose
                     replies' cursor' rs (evs1 @ [Sleep thread_sleep]))
      | Raises e \<Rightarrow>
          if error_code e = ''ratelimited'' then
            (case int_header (retry_after e) 30 of
               None \<Rightarrow> Some (Raised Value_error, rs, evs1)
             | Some wait \<Rightarrow>
                 (let evs2 = evs1 @ [Print (Thread_rate_limited idx n_threads wait)] in
                  if wait < 0 then Some (Raised Value_error, rs, evs2)
                  else fetch_thread_loop channel_id parent_ts idx n_threads thread_sleep verbose
                         replies cursor rs (evs2 @ [Sleep (of_int wait)])))
          else Some (Returned replies, rs, evs1 @ [Print (Replies_failed e)]))"

definition fetch_thread ::
  "string \<Rightarrow> string \<Rightarrow> nat \<Rightarrow> nat \<Rightarrow> rat \<Rightarrow> bool \<Rightarrow>
     message list option api_result list \<Rightarrow> event list \<Rightarrow>
     (message list outcome \<times> message list option api_result list \<times> event list) option" where
  "fetch_thread channel_id parent_ts idx n_threads thread_sleep verbose rs evs =
     fetch_thread_loop channel_id parent_ts idx n_threads thread_sleep verbose [] None rs evs"

subsection \<open>\<open>fetch_channel_structured\<close>\<close>

text \<open>
  \<open>float\<close> is a function of Python's library: the model takes it as the parameter
  \<open>to_float\<close>. A finite float is a rational number, and the program only compares floats,
  so they are modelled as \<open>rat\<close>. \<open>start_ts\<close> and \<open>end_ts\<close> are the integers \<open>main\<close> computes.

  \<open>threads\<close> is a dictionary whose order of keys matters (the second loop enumerates it):
  an association list, where \<open>threads[k] = v\<close> is \<open>AList.update k v\<close> (a new key goes last,
  a known key keeps its place).
\<close>

text \<open>What \<open>for m in r["messages"]\<close> does with one message.\<close>

definition history_step ::
  "(string \<Rightarrow> rat) \<Rightarrow> int \<Rightarrow> int \<Rightarrow> message list \<times> (string \<times> message list) list \<Rightarrow> message \<Rightarrow>
     message list \<times> (string \<times> message list) list" where
  "history_step to_float start_ts end_ts acc m =
     (case acc of (tops, threads) \<Rightarrow>
        if m_subtype m \<noteq> None \<and> m_subtype m \<noteq> Some ''thread_broadcast'' then (tops, threads)
        else
          (let tsf = to_float (m_ts m) in
           if of_int start_ts \<le> tsf \<and> tsf \<le> of_int end_ts
           then (tops @ [m],
                 if m_thread_ts m \<noteq> None \<and> Some (m_ts m) = m_thread_ts m
                 then AList.update (m_ts m) [] threads else threads)
           else (tops, threads)))"

text \<open>The \<open>while True\<close> loop over \<open>conversations.history\<close>.\<close>

fun fetch_history_loop ::
  "(string \<Rightarrow> rat) \<Rightarrow> string \<Rightarrow> int \<Rightarrow> int \<Rightarrow> message list \<times> (string \<times> message list) list \<Rightarrow>
     string option \<Rightarrow> message list api_result list \<Rightarrow> event list \<Rightarrow>
     ((message list \<times> (string \<times> message list) list) outcome \<times>
        message list api_result list \<times> event list) option" where
  "fetch_history_loop to_float ch_id start_ts end_ts acc cursor [] evs = None"
| "fetch_history_loop to_float ch_id start_ts end_ts acc cursor (r # rs) evs =
     (let evs1 = evs @ [Call (Conversations_history ch_id cursor start_ts end_ts)] in
      case r of
        Returns p \<Rightarrow>
          (let acc' = foldl (history_step to_float start_ts end_ts) acc (items p);
               cursor' = next_cursor p
           in if falsy cursor' then Some (Returned acc', rs, evs1)
              else fetch_history_loop to_float ch_id start_ts end_ts acc' cursor' rs
                     (evs1 @ [Sleep 1]))
      | Raises e \<Rightarrow>
          if error_code e = ''ratelimited'' then
            (case int_header (retry_after e) 30 of
               None \<Rightarrow> Some (Raised Value_error, rs, evs1)
             | Some wait \<Rightarrow>
                 (let evs2 = evs1 @ [Print (History_rate_limited wait)] in
                  if wait < 0 then Some (Raised Value_error, rs, evs2)
                  else fetch_history_loop to_float ch_id start_ts end_ts acc cursor rs
                         (evs2 @ [Sleep (of_int wait), Sleep 1])))
          else Some (Returned acc, rs, evs1 @ [Print (History_failed e)]))"

text \<open>
  \<open>for idx, ts in enumerate(threads, 1): threads[ts] = fetch_thread(...)\<close>, over the keys
  that are left; \<open>n_threads\<close> is \<open>len(threads)\<close>, which the loop does not change.
\<close>

fun fetch_threads ::
  "string \<Rightarrow> rat \<Rightarrow> bool \<Rightarrow> nat \<Rightarrow> nat \<Rightarrow> string list \<Rightarrow> (string \<times> message list) list \<Rightarrow>
     message list option api_result list \<Rightarrow> event list \<Rightarrow>
     ((string \<times> message list) list outcome \<times> message list option api_result list \<times> event list) option" where
  "fetch_threads ch_id thread_sleep verbose n_threads idx [] threads rs evs =
     Some (Returned threads, rs, evs)"
| "fetch_threads ch_id thread_sleep verbose n_threads idx (ts # keys) threads rs evs =
     (case fetch_thread ch_id ts idx n_threads thread_sleep verbose rs evs of
        None \<Rightarrow> None
      | Some (Raised x, rs', evs') \<Rightarrow> Some (Raised x, rs', evs')
      | Some (Returned replies, rs', evs') \<Rightarrow>
          fetch_threads ch_id thread_sleep verbose n_threads (Suc idx) keys
            (AList.update ts replies threads) rs' evs')"

text \<open>
  The function: the answers of \<open>conversations.history\<close> and of \<open>conversations.replies\<close>
  are two lists, the log is shared.
\<close>

definition fetch_channel_structured ::
  "(string \<Rightarrow> rat) \<Rightarrow> string \<Rightarrow> int \<Rightarrow> int \<Rightarrow> rat \<Rightarrow> bool \<Rightarrow>
     message list api_result list \<Rightarrow> message list option api_result list \<Rightarrow> event list \<Rightarrow>
     ((message list \<times> (string \<times> message list) list) outcome \<times>
        message list api_result list \<times> message list option api_result list \<times> event list) option" where
  "fetch_channel_structured to_float ch_id start_ts end_ts thread_sleep verbose hs rs evs =
     (case fetch_history_loop to_float ch_id start_ts end_ts ([], []) None hs evs of
        None \<Rightarrow> None
      | Some (Raised x, hs', evs') \<Rightarrow> Some (Raised x, hs', rs, evs')
      | Some (Returned (tops, threads), hs', evs') \<Rightarrow>
          (case fetch_threads ch_id thread_sleep verbose (length threads) 1 (map fst threads)
                  threads rs evs' of
             None \<Rightarrow> None
           | Some (Raised x, rs', evs'') \<Rightarrow> Some (Raised x, hs', rs', evs'')
           | Some (Returned threads', rs', evs'') \<Rightarrow>
               Some (Returned (tops, threads'), hs', rs', evs'')))"

section \<open>Writing a channel\<close>













text \<open>
  \<open>sorted(xs, key=lambda x: float(x["ts"]))\<close> is stable, as \<open>sort_key\<close> is. The replies
  written after a message: none unless the message is a thread parent, else the sorted
  \<open>threads.get(m["ts"], [])\<close>.
\<close>

definition by_ts :: "(string \<Rightarrow> rat) \<Rightarrow> message list \<Rightarrow> message list" where
  "by_ts to_float ms = sort_key (\<lambda>x. to_float (m_ts x)) ms"

definition replies_of :: "(string \<Rightarrow> rat) \<Rightarrow> (string \<times> message list) list \<Rightarrow> message \<Rightarrow> message list" where
  "replies_of to_float threads m =
     (if m_thread_ts m \<noteq> None \<and> Some (m_ts m) = m_thread_ts m
      then by_ts to_float (case map_of threads (m_ts m) of None \<Rightarrow> [] | Some rs \<Rightarrow> rs)
      else [])"


text \<open>
  The messages behind the written lines, in file order, each with whether its line is a
  reply line; and their timestamps as the program compares them.
\<close>

definition written_messages ::
  "(string \<Rightarrow> rat) \<Rightarrow> message list \<Rightarrow> (string \<times> message list) list \<Rightarrow> (bool \<times> message) list" where
  "written_messages to_float messages threads =
     concat (map (\<lambda>m. (False, m) # map (Pair True) (replies_of to_float threads m))
               (by_ts to_float messages))"


section \<open>Auxiliary notions of the proofs\<close>

text \<open>The three passes of \<open>resolve_text\<close>, named.\<close>

abbreviation pass1 :: "(string \<rightharpoonup> string) \<Rightarrow> string \<Rightarrow> string" where
  "pass1 um \<equiv> re_sub match_user_ref (\<lambda>g. ''@'' @ dict_get um g g)"

abbreviation pass2 :: "(string \<rightharpoonup> string) \<Rightarrow> string \<Rightarrow> string" where
  "pass2 um \<equiv> re_sub match_plain_ref (\<lambda>g. ''<'' @ dict_get um g g @ ''>'')"

abbreviation pass3 :: "(string \<rightharpoonup> string) \<Rightarrow> string \<Rightarrow> string" where
  "pass3 gm \<equiv> re_sub match_group_ref (\<lambda>g. ''@'' @ dict_get gm g g)"

text \<open>
  What the proofs use of a pattern: a match starts with \<open><\<close>, the rest of the matched
  text is made of the characters \<open>I\<close>, and the match does not depend on what follows it.
\<close>

definition token_matcher :: "(string \<Rightarrow> (string \<times> nat) option) \<Rightarrow> char set \<Rightarrow> bool" where
  "token_matcher mt I \<longleftrightarrow>
     (\<forall>s g n. mt s = Some (g, n) \<longrightarrow>
        (\<exists>bd rest. s = CHR ''<'' # bd @ rest \<and> n = Suc (length bd) \<and> set bd \<subseteq> I \<and>
           (\<forall>rest'. mt (CHR ''<'' # bd @ rest') = Some (g, n))))"

text \<open>The pages among the answers a loop has used, and the messages of a page of replies.\<close>

fun pages_of :: "'a api_result list \<Rightarrow> 'a page list" where
  "pages_of [] = []"
| "pages_of (Returns p # rs) = p # pages_of rs"
| "pages_of (Raises e # rs) = pages_of rs"

text \<open>
  A run of pages as the server sends them when nothing fails: every page but the last
  carries a next cursor, the last one does not.
\<close>

fun paged :: "'a page list \<Rightarrow> bool" where
  "paged [] = False"
| "paged [p] = falsy (next_cursor p)"
| "paged (p # q # ps) = (\<not> falsy (next_cursor p) \<and> paged (q # ps))"

definition page_messages :: "message list option page \<Rightarrow> message list" where
  "page_messages p = (case items p of None \<Rightarrow> [] | Some ms \<Rightarrow> ms)"

text \<open>
  The two tests of the history loop, named: the time window, and the subtype filter
  together with the window; and the thread-parent marker.
\<close>

definition in_window :: "(string \<Rightarrow> rat) \<Rightarrow> int \<Rightarrow> int \<Rightarrow> message \<Rightarrow> bool" where
  "in_window to_float start_ts end_ts m =
     (of_int start_ts \<le> to_float (m_ts m) \<and> to_float (m_ts m) \<le> of_int end_ts)"

definition kept :: "(string \<Rightarrow> rat) \<Rightarrow> int \<Rightarrow> int \<Rightarrow> message \<Rightarrow> bool" where
  "kept to_float start_ts end_ts m =
     ((m_subtype m = None \<or> m_subtype m = Some ''thread_broadcast'') \<and>
      in_window to_float start_ts end_ts m)"

definition is_parent :: "message \<Rightarrow> bool" where
  "is_parent m = (m_thread_ts m = Some (m_ts m))"

text \<open>The log of one call of \<open>conversations.replies\<close>, with the line \<open>verbose\<close> prints before it.\<close>

definition thread_call :: "bool \<Rightarrow> string \<Rightarrow> string \<Rightarrow> string option \<Rightarrow> event list" where
  "thread_call vb ch pts cur =
     (if vb then [Print (Fetching_thread pts)] else []) @ [Call (Conversations_replies ch pts cur)]"

text \<open>
  Runs with rate limits. An error the handlers recover from: a rate limit whose
  \<open>Retry-After\<close> header is absent or a non-negative integer. A run of answers made of
  such errors and of pages, which ends with the first page that has no next cursor.
\<close>

definition retriable :: "slack_api_error \<Rightarrow> bool" where
  "retriable e =
     (error_code e = ''ratelimited'' \<and>
      (case retry_after e of No_header \<Rightarrow> True | Header_int n \<Rightarrow> 0 \<le> n | Header_other \<Rightarrow> False))"

fun rate_limited_run :: "'a api_result list \<Rightarrow> bool" where
  "rate_limited_run [] = False"
| "rate_limited_run (Returns p # rs) = (if falsy (next_cursor p) then rs = [] else rate_limited_run rs)"
| "rate_limited_run (Raises e # rs) = (retriable e \<and> rate_limited_run rs)"

text \<open>
  The requests of a log, and the cursors of the requests that a loop starting with
  cursor \<open>cur\<close> sends to get the given answers: after a page the page's next cursor,
  after an error the same cursor again.
\<close>

fun calls :: "event list \<Rightarrow> request list" where
  "calls [] = []"
| "calls (Call r # es) = r # calls es"
| "calls (Sleep d # es) = calls es"
| "calls (Print c # es) = calls es"

fun cursors :: "string option \<Rightarrow> 'a api_result list \<Rightarrow> string option list" where
  "cursors cur [] = []"
| "cursors cur (Returns p # rs) = cur # cursors (next_cursor p) rs"
| "cursors cur (Raises e # rs) = cur # cursors cur rs"

section \<open>Instances used in the examples\<close>

text \<open>
  The examples need a \<open>float\<close>, a \<open>fromtimestamp\<close> and messages. \<open>digits_value\<close> reads an
  unsigned decimal integer, where \<open>float\<close> is exact; \<open>day_clock\<close> is the UTC date and time
  of a timestamp of the first day of the epoch; \<open>msg\<close> is a message with the given
  timestamp, thread marker and subtype.
\<close>

definition digits_value :: "string \<Rightarrow> rat" where
  "digits_value s = of_nat (foldl (\<lambda>n c. 10 * n + (of_char c - 48)) 0 s)"


definition msg :: "string \<Rightarrow> string option \<Rightarrow> string option \<Rightarrow> message" where
  "msg ts thread_ts subtype =
     \<lparr>m_ts = ts, m_thread_ts = thread_ts, m_subtype = subtype, m_text = Some ''hello'', m_user = None\<rparr>"

section \<open>Proofs: mention resolution\<close>

lemma re_sub_no_match: "\<not> has_match mt s \<Longrightarrow> re_sub mt repl s = s"
  by (induction s) (auto split: option.splits)

lemma strip_prefix_Some: "strip_prefix p s = Some r \<longleftrightarrow> s = p @ r"
  by (induction p s rule: strip_prefix.induct) auto

lemma id_char_gt [simp]: "\<not> id_char (CHR ''>'')"
  by (simp add: id_char_def)

lemma id_run_SomeD:
  assumes h: "id_run cs = Some run"
  shows "run \<noteq> [] \<and> (\<forall>c\<in>set run. id_char c) \<and> (\<exists>rest. cs = run @ CHR ''>'' # rest)"
proof -
  from h have r: "run = takeWhile id_char cs" and ne: "run \<noteq> []"
    and t: "take 1 (dropWhile id_char cs) = ''>''"
    by (auto simp: id_run_def Let_def split: if_splits)
  from t obtain rest where d: "dropWhile id_char cs = CHR ''>'' # rest"
    by (cases "dropWhile id_char cs") auto
  have "cs = takeWhile id_char cs @ dropWhile id_char cs" by simp
  with r d have "cs = run @ CHR ''>'' # rest" by simp
  moreover have "\<forall>c\<in>set run. id_char c" using r by (auto dest: set_takeWhileD)
  ultimately show ?thesis using ne by blast
qed

lemma id_run_SomeI:
  assumes ne: "run \<noteq> []" and a: "\<forall>c\<in>set run. id_char c"
  shows "id_run (run @ CHR ''>'' # rest) = Some run"
proof -
  have "takeWhile id_char (run @ CHR ''>'' # rest) = run" using a by simp
  moreover have "dropWhile id_char (run @ CHR ''>'' # rest) = CHR ''>'' # rest" using a by simp
  ultimately show ?thesis using ne by (simp add: id_run_def)
qed

lemma match_user_ref_SomeD:
  assumes "match_user_ref s = Some (g, n)"
  shows "\<exists>c run rest. s = ''<@'' @ c # run @ CHR ''>'' # rest \<and> (c = CHR ''U'' \<or> c = CHR ''W'') \<and>
        run \<noteq> [] \<and> (\<forall>c\<in>set run. id_char c) \<and> g = c # run \<and> n = length run + 4"
proof -
  from assms obtain c cs run where sp: "strip_prefix ''<@'' s = Some (c # cs)"
    and c: "c = CHR ''U'' \<or> c = CHR ''W''" and ir: "id_run cs = Some run"
    and g: "g = c # run" and n: "n = length run + 4"
    by (auto simp: match_user_ref_def split: option.splits list.splits if_splits)
  from sp have s: "s = ''<@'' @ c # cs" by (simp only: strip_prefix_Some)
  from id_run_SomeD[OF ir] obtain rest where "run \<noteq> []" "\<forall>c\<in>set run. id_char c" "cs = run @ CHR ''>'' # rest"
    by blast
  with s c g n show ?thesis by blast
qed

lemma match_user_ref_SomeI:
  assumes "c = CHR ''U'' \<or> c = CHR ''W''" "run \<noteq> []" "\<forall>c\<in>set run. id_char c"
  shows "match_user_ref (''<@'' @ c # run @ CHR ''>'' # rest) = Some (c # run, length run + 4)"
  using assms id_run_SomeI[of run rest] by (auto simp: match_user_ref_def)

lemma match_plain_ref_SomeD:
  assumes "match_plain_ref s = Some (g, n)"
  shows "\<exists>run rest. s = ''<U'' @ run @ CHR ''>'' # rest \<and>
        run \<noteq> [] \<and> (\<forall>c\<in>set run. id_char c) \<and> g = CHR ''U'' # run \<and> n = length run + 3"
proof -
  from assms obtain c cs run where sp: "strip_prefix ''<'' s = Some (c # cs)"
    and c: "c = CHR ''U''" and ir: "id_run cs = Some run"
    and g: "g = c # run" and n: "n = length run + 3"
    by (auto simp: match_plain_ref_def split: option.splits list.splits if_splits)
  from sp have s: "s = ''<'' @ c # cs" by (simp only: strip_prefix_Some)
  from id_run_SomeD[OF ir] obtain rest where "run \<noteq> []" "\<forall>c\<in>set run. id_char c" "cs = run @ CHR ''>'' # rest"
    by blast
  with s c g n show ?thesis by auto
qed

lemma match_plain_ref_SomeI:
  assumes "run \<noteq> []" "\<forall>c\<in>set run. id_char c"
  shows "match_plain_ref (''<U'' @ run @ CHR ''>'' # rest) = Some (CHR ''U'' # run, length run + 3)"
  using assms id_run_SomeI[of run rest] by (auto simp: match_plain_ref_def)

lemma match_group_ref_SomeD:
  assumes "match_group_ref s = Some (g, n)"
  shows "\<exists>rest. s = ''<!subteam^'' @ g @ CHR ''>'' # rest \<and>
        g \<noteq> [] \<and> (\<forall>c\<in>set g. id_char c) \<and> n = length g + 11"
proof -
  from assms obtain cs where sp: "strip_prefix ''<!subteam^'' s = Some cs"
    and ir: "id_run cs = Some g" and n: "n = length g + 11"
    by (auto simp: match_group_ref_def split: option.splits)
  from sp have s: "s = ''<!subteam^'' @ cs" by (simp only: strip_prefix_Some)
  from id_run_SomeD[OF ir] obtain rest where "g \<noteq> []" "\<forall>c\<in>set g. id_char c" "cs = g @ CHR ''>'' # rest"
    by blast
  with s n show ?thesis by auto
qed

lemma match_group_ref_SomeI:
  assumes "g \<noteq> []" "\<forall>c\<in>set g. id_char c"
  shows "match_group_ref (''<!subteam^'' @ g @ CHR ''>'' # rest) = Some (g, length g + 11)"
  using assms id_run_SomeI[of g rest] by (auto simp: match_group_ref_def)

lemma id_char_not_special: "id_char c \<Longrightarrow> c \<noteq> CHR ''<'' \<and> c \<noteq> CHR ''@'' \<and> c \<noteq> CHR ''!''"
  by (auto simp: id_char_def)

lemma token_matcher_user: "token_matcher match_user_ref (- {CHR ''<''})"
  unfolding token_matcher_def
proof (intro allI impI)
  fix s g n assume "match_user_ref s = Some (g, n)"
  from match_user_ref_SomeD[OF this] obtain c run rest where
    s: "s = ''<@'' @ c # run @ CHR ''>'' # rest" and c: "c = CHR ''U'' \<or> c = CHR ''W''"
    and ne: "run \<noteq> []" and a: "\<forall>c\<in>set run. id_char c" and g: "g = c # run" and n: "n = length run + 4"
    by blast
  let ?bd = "CHR ''@'' # c # run @ ''>''"
  have "s = CHR ''<'' # ?bd @ rest" using s by simp
  moreover have "n = Suc (length ?bd)" using n by simp
  moreover have "set ?bd \<subseteq> - {CHR ''<''}" using a c id_char_not_special by auto
  moreover have "\<forall>rest'. match_user_ref (CHR ''<'' # ?bd @ rest') = Some (g, n)"
    using match_user_ref_SomeI[OF c ne a] g n by simp
  ultimately show "\<exists>bd rest. s = CHR ''<'' # bd @ rest \<and> n = Suc (length bd) \<and> set bd \<subseteq> - {CHR ''<''} \<and>
           (\<forall>rest'. match_user_ref (CHR ''<'' # bd @ rest') = Some (g, n))" by blast
qed

lemma token_matcher_plain: "token_matcher match_plain_ref (- {CHR ''<'', CHR ''@''})"
  unfolding token_matcher_def
proof (intro allI impI)
  fix s g n assume "match_plain_ref s = Some (g, n)"
  from match_plain_ref_SomeD[OF this] obtain run rest where
    s: "s = ''<U'' @ run @ CHR ''>'' # rest"
    and ne: "run \<noteq> []" and a: "\<forall>c\<in>set run. id_char c" and g: "g = CHR ''U'' # run" and n: "n = length run + 3"
    by blast
  let ?bd = "CHR ''U'' # run @ ''>''"
  have "s = CHR ''<'' # ?bd @ rest" using s by simp
  moreover have "n = Suc (length ?bd)" using n by simp
  moreover have "set ?bd \<subseteq> - {CHR ''<'', CHR ''@''}" using a id_char_not_special by auto
  moreover have "\<forall>rest'. match_plain_ref (CHR ''<'' # ?bd @ rest') = Some (g, n)"
    using match_plain_ref_SomeI[OF ne a] g n by simp
  ultimately show "\<exists>bd rest. s = CHR ''<'' # bd @ rest \<and> n = Suc (length bd) \<and> set bd \<subseteq> - {CHR ''<'', CHR ''@''} \<and>
           (\<forall>rest'. match_plain_ref (CHR ''<'' # bd @ rest') = Some (g, n))" by blast
qed

lemma token_matcher_group: "token_matcher match_group_ref (- {CHR ''<'', CHR ''@''})"
  unfolding token_matcher_def
proof (intro allI impI)
  fix s g n assume "match_group_ref s = Some (g, n)"
  from match_group_ref_SomeD[OF this] obtain rest where
    s: "s = ''<!subteam^'' @ g @ CHR ''>'' # rest"
    and ne: "g \<noteq> []" and a: "\<forall>c\<in>set g. id_char c" and n: "n = length g + 11"
    by blast
  let ?bd = "''!subteam^'' @ g @ ''>''"
  have "s = CHR ''<'' # ?bd @ rest" using s by simp
  moreover have "n = Suc (length ?bd)" using n by simp
  moreover have "set ?bd \<subseteq> - {CHR ''<'', CHR ''@''}" using a id_char_not_special by auto
  moreover have "\<forall>rest'. match_group_ref (CHR ''<'' # ?bd @ rest') = Some (g, n)"
    using match_group_ref_SomeI[OF ne a] n by simp
  ultimately show "\<exists>bd rest. s = CHR ''<'' # bd @ rest \<and> n = Suc (length bd) \<and> set bd \<subseteq> - {CHR ''<'', CHR ''@''} \<and>
           (\<forall>rest'. match_group_ref (CHR ''<'' # bd @ rest') = Some (g, n))" by blast
qed

lemma token_matcher_head:
  "token_matcher mt I \<Longrightarrow> mt (c # cs) = Some gn \<Longrightarrow> c = CHR ''<''"
  by (cases gn) (fastforce simp: token_matcher_def)

lemma re_sub_plain_prefix:
  assumes tm: "token_matcher mt I" and nl: "CHR ''<'' \<notin> set S"
  shows "re_sub mt r (S @ B) = S @ re_sub mt r B"
  using nl
proof (induction S)
  case Nil
  show ?case by simp
next
  case (Cons a S)
  have "mt (a # S @ B) = None"
  proof (cases "mt (a # S @ B)")
    case (Some gn)
    from token_matcher_head[OF tm Some] Cons.prems show ?thesis by simp
  qed simp
  with Cons show ?case by simp
qed

lemma token_matcher_extend:
  assumes tm: "token_matcher mt I" and m: "mt s = Some (g, n)"
  shows "mt (s @ X) = Some (g, n) \<and> 0 < n \<and> n \<le> length s"
proof -
  from tm m obtain bd rest where s: "s = CHR ''<'' # bd @ rest" and n: "n = Suc (length bd)"
    and ex: "\<forall>rest'. mt (CHR ''<'' # bd @ rest') = Some (g, n)"
    unfolding token_matcher_def by blast
  from ex have "mt (CHR ''<'' # bd @ (rest @ X)) = Some (g, n)" by blast
  with s n show ?thesis by simp
qed

lemma token_matcher_boundary:
  assumes tm: "token_matcher mt I" and c: "c \<notin> I" and ne: "s \<noteq> []"
  shows "mt (s @ c # B) = mt s"
proof (cases "mt s")
  case (Some gn)
  then show ?thesis using token_matcher_extend[OF tm, of s "fst gn" "snd gn" "c # B"] by simp
next
  case None
  show ?thesis
  proof (cases "mt (s @ c # B)")
    case None': None
    with None show ?thesis by simp
  next
    case (Some gn)
    obtain g n where gn: "gn = (g, n)" by (cases gn)
    from tm Some gn obtain bd rest where s: "s @ c # B = CHR ''<'' # bd @ rest"
      and n: "n = Suc (length bd)" and sub: "set bd \<subseteq> I"
      and ex: "\<forall>rest'. mt (CHR ''<'' # bd @ rest') = Some (g, n)"
      unfolding token_matcher_def by blast
    show ?thesis
    proof (cases "Suc (length bd) \<le> length s")
      case True
      from s have "take (Suc (length bd)) (s @ c # B) = CHR ''<'' # bd" by simp
      with True have "take (Suc (length bd)) s = CHR ''<'' # bd" by simp
      then have "s = CHR ''<'' # bd @ drop (Suc (length bd)) s"
        by (metis append_Cons append_take_drop_id)
      with ex have "mt s = Some (g, n)" by metis
      with None show ?thesis by simp
    next
      case False
      with ne have l: "0 < length s" "length s - 1 < length bd" by (cases s; simp)+
      from s have "(s @ c # B) ! length s = (CHR ''<'' # bd @ rest) ! length s" by simp
      then have "c = (CHR ''<'' # bd @ rest) ! length s" by simp
      also have "\<dots> = bd ! (length s - 1)" using l by (simp add: nth_Cons' nth_append)
      finally have "c \<in> set bd" using l by simp
      with sub c show ?thesis by blast
    qed
  qed
qed

lemma re_sub_boundary:
  assumes tm: "token_matcher mt I" and c: "c \<notin> I"
  shows "re_sub mt r (A @ c # B) = re_sub mt r A @ re_sub mt r (c # B)"
proof (induction A rule: length_induct)
  case (1 A)
  show ?case
  proof (cases A)
    case Nil
    then show ?thesis by simp
  next
    case (Cons a as)
    have eq: "mt (a # as @ c # B) = mt (a # as)"
      using token_matcher_boundary[OF tm c, of "a # as" B] by simp
    show ?thesis
    proof (cases "mt (a # as)")
      case None
      moreover have "re_sub mt r (as @ c # B) = re_sub mt r as @ re_sub mt r (c # B)"
        using 1 Cons by simp
      ultimately show ?thesis using Cons eq by simp
    next
      case (Some gn)
      obtain g n where gn: "gn = (g, n)" by (cases gn)
      from token_matcher_extend[OF tm, of "a # as" g n "[]"] Some gn
      have n: "0 < n" "n \<le> Suc (length as)" by auto
      then have d: "drop (n - 1) (as @ c # B) = drop (n - 1) as @ c # B" by simp
      have "length (drop (n - 1) as) < length A" using Cons by simp
      with 1 have "re_sub mt r (drop (n - 1) as @ c # B) = re_sub mt r (drop (n - 1) as) @ re_sub mt r (c # B)"
        by blast
      with Some gn eq d Cons show ?thesis by simp
    qed
  qed
qed

lemma re_sub_token:
  assumes "mt (tok @ B) = Some (g, length tok)" and "tok \<noteq> []"
  shows "re_sub mt r (tok @ B) = r g @ re_sub mt r B"
proof -
  from assms(2) obtain a as where t: "tok = a # as" by (cases tok) auto
  with assms(1) show ?thesis by simp
qed

declare re_sub.simps(2) [simp del]

lemma id_chars_no_lt: "list_all id_char run \<Longrightarrow> CHR ''<'' \<notin> set run"
  using id_char_not_special by (auto simp: list_all_iff)

lemma is_user_id_plain: "is_user_id i \<Longrightarrow> plain_name i"
  using id_char_not_special
  by (auto simp: is_user_id_def plain_name_def list_all_iff split: list.splits)

lemma known_plain_get:
  "is_user_id i \<Longrightarrow> known_as plain_name d i \<Longrightarrow> plain_name (dict_get d i i)"
  by (auto simp: known_as_def dict_get_def is_user_id_plain split: option.splits)

lemma known_no_angle_get:
  "is_user_id i \<Longrightarrow> known_as no_angle d i \<Longrightarrow> no_angle (dict_get d i i)"
  using is_user_id_plain[of i]
  by (auto simp: known_as_def dict_get_def plain_name_def no_angle_def split: option.splits)

lemma is_plain_id_user: "is_plain_id i \<Longrightarrow> is_user_id i"
  by (auto simp: is_plain_id_def is_user_id_def split: list.splits)

lemma resolve_text_passes: "resolve_text s um gm = pass3 gm (pass2 um (pass1 um s))"
  by (simp add: resolve_text_def)

lemma resolve_user_ref:
  assumes i: "is_user_id i" and k: "known_as no_angle um i"
  shows "resolve_text (xs @ ''<@'' @ i @ ''>'' @ ys) um gm =
         resolve_text xs um gm @ ''@'' @ dict_get um i i @ resolve_text ys um gm"
proof -
  let ?N = "dict_get um i i"
  from i obtain c run where ic: "i = c # run" and c: "c = CHR ''U'' \<or> c = CHR ''W''"
    and ne: "run \<noteq> []" and a: "\<forall>c\<in>set run. id_char c"
    by (auto simp: is_user_id_def list_all_iff split: list.splits)
  have N: "CHR ''<'' \<notin> set (CHR ''@'' # ?N)"
    using known_no_angle_get[OF i k] by (simp add: no_angle_def)
  have m: "match_user_ref ((''<@'' @ i @ ''>'') @ ys) = Some (i, length (''<@'' @ i @ ''>''))"
    using match_user_ref_SomeI[OF c ne a, of ys] ic by simp
  have "pass1 um (xs @ CHR ''<'' # (''@'' @ i @ ''>'' @ ys)) =
        pass1 um xs @ pass1 um (CHR ''<'' # (''@'' @ i @ ''>'' @ ys))"
    by (rule re_sub_boundary[OF token_matcher_user]) simp
  also have "pass1 um (CHR ''<'' # (''@'' @ i @ ''>'' @ ys)) = (''@'' @ ?N) @ pass1 um ys"
    using re_sub_token[of match_user_ref "''<@'' @ i @ ''>''" ys i "\<lambda>g. ''@'' @ dict_get um g g"] m by simp
  finally have p1: "pass1 um (xs @ ''<@'' @ i @ ''>'' @ ys) = pass1 um xs @ CHR ''@'' # (?N @ pass1 um ys)"
    by simp
  have "pass2 um (pass1 um xs @ CHR ''@'' # (?N @ pass1 um ys)) =
        pass2 um (pass1 um xs) @ pass2 um (CHR ''@'' # (?N @ pass1 um ys))"
    by (rule re_sub_boundary[OF token_matcher_plain]) simp
  also have "pass2 um (CHR ''@'' # (?N @ pass1 um ys)) = (CHR ''@'' # ?N) @ pass2 um (pass1 um ys)"
    using re_sub_plain_prefix[OF token_matcher_plain N] by simp
  finally have p2: "pass2 um (pass1 um (xs @ ''<@'' @ i @ ''>'' @ ys)) =
        pass2 um (pass1 um xs) @ CHR ''@'' # (?N @ pass2 um (pass1 um ys))"
    using p1 by simp
  have "pass3 gm (pass2 um (pass1 um xs) @ CHR ''@'' # (?N @ pass2 um (pass1 um ys))) =
        pass3 gm (pass2 um (pass1 um xs)) @ pass3 gm (CHR ''@'' # (?N @ pass2 um (pass1 um ys)))"
    by (rule re_sub_boundary[OF token_matcher_group]) simp
  also have "pass3 gm (CHR ''@'' # (?N @ pass2 um (pass1 um ys))) = (CHR ''@'' # ?N) @ pass3 gm (pass2 um (pass1 um ys))"
    using re_sub_plain_prefix[OF token_matcher_group N] by simp
  finally show ?thesis using p2 by (simp add: resolve_text_passes)
qed

lemma re_sub_unmatched_lt:
  assumes tm: "token_matcher mt I" and nm: "mt (CHR ''<'' # S @ CHR ''>'' # B) = None"
    and nl: "CHR ''<'' \<notin> set S"
  shows "re_sub mt r (CHR ''<'' # S @ CHR ''>'' # B) = CHR ''<'' # S @ CHR ''>'' # re_sub mt r B"
proof -
  have "CHR ''<'' \<notin> set (S @ ''>'')" using nl by simp
  from re_sub_plain_prefix[OF tm this, of r B] nm show ?thesis by (simp add: re_sub.simps(2))
qed

lemma match_user_ref_not_at: "c \<noteq> CHR ''@'' \<Longrightarrow> match_user_ref (CHR ''<'' # c # cs) = None"
  by (simp add: match_user_ref_def)

lemma match_plain_ref_not_U: "c \<noteq> CHR ''U'' \<Longrightarrow> match_plain_ref (CHR ''<'' # c # cs) = None"
  by (simp add: match_plain_ref_def)

lemma match_group_ref_not_bang: "take 1 s \<noteq> ''!'' \<Longrightarrow> match_group_ref (CHR ''<'' # s) = None"
  by (cases s) (auto simp: match_group_ref_def)

lemma resolve_plain_ref:
  assumes i: "is_plain_id i" and k: "known_as plain_name um i"
  shows "resolve_text (xs @ ''<'' @ i @ ''>'' @ ys) um gm =
         resolve_text xs um gm @ ''<'' @ dict_get um i i @ ''>'' @ resolve_text ys um gm"
proof -
  let ?N = "dict_get um i i"
  from i obtain run where ic: "i = CHR ''U'' # run"
    and ne: "run \<noteq> []" and a: "\<forall>c\<in>set run. id_char c"
    by (auto simp: is_plain_id_def list_all_iff split: list.splits)
  have il: "CHR ''<'' \<notin> set i" using is_user_id_plain[OF is_plain_id_user[OF i]] by (simp add: plain_name_def)
  have N: "CHR ''<'' \<notin> set ?N" "take 1 ?N \<noteq> ''!''"
    using known_plain_get[OF is_plain_id_user[OF i] k] by (simp_all add: plain_name_def)
  have nm: "match_group_ref (CHR ''<'' # ?N @ CHR ''>'' # B) = None" for B
    using N(2) by (intro match_group_ref_not_bang) (cases ?N; simp)
  have "pass1 um (xs @ CHR ''<'' # (i @ ''>'' @ ys)) =
        pass1 um xs @ pass1 um (CHR ''<'' # (i @ ''>'' @ ys))"
    by (rule re_sub_boundary[OF token_matcher_user]) simp
  also have "pass1 um (CHR ''<'' # (i @ ''>'' @ ys)) = CHR ''<'' # i @ CHR ''>'' # pass1 um ys"
    using re_sub_unmatched_lt[OF token_matcher_user _ il, of ys] match_user_ref_not_at[of "CHR ''U''"] ic
    by simp
  finally have p1: "pass1 um (xs @ ''<'' @ i @ ''>'' @ ys) = pass1 um xs @ CHR ''<'' # (i @ ''>'' @ pass1 um ys)"
    by simp
  have "pass2 um (pass1 um xs @ CHR ''<'' # (i @ ''>'' @ pass1 um ys)) =
        pass2 um (pass1 um xs) @ pass2 um (CHR ''<'' # (i @ ''>'' @ pass1 um ys))"
    by (rule re_sub_boundary[OF token_matcher_plain]) simp
  also have "pass2 um (CHR ''<'' # (i @ ''>'' @ pass1 um ys)) = (''<'' @ ?N @ ''>'') @ pass2 um (pass1 um ys)"
    using re_sub_token[of match_plain_ref "''<'' @ i @ ''>''" "pass1 um ys" i "\<lambda>g. ''<'' @ dict_get um g g @ ''>''"]
      match_plain_ref_SomeI[OF ne a, of "pass1 um ys"] ic by simp
  finally have p2: "pass2 um (pass1 um (xs @ ''<'' @ i @ ''>'' @ ys)) =
        pass2 um (pass1 um xs) @ CHR ''<'' # (?N @ CHR ''>'' # pass2 um (pass1 um ys))"
    using p1 by simp
  have "pass3 gm (pass2 um (pass1 um xs) @ CHR ''<'' # (?N @ CHR ''>'' # pass2 um (pass1 um ys))) =
        pass3 gm (pass2 um (pass1 um xs)) @ pass3 gm (CHR ''<'' # (?N @ CHR ''>'' # pass2 um (pass1 um ys)))"
    by (rule re_sub_boundary[OF token_matcher_group]) simp
  also have "pass3 gm (CHR ''<'' # (?N @ CHR ''>'' # pass2 um (pass1 um ys))) =
       CHR ''<'' # ?N @ CHR ''>'' # pass3 gm (pass2 um (pass1 um ys))"
    by (rule re_sub_unmatched_lt[OF token_matcher_group nm N(1)])
  finally show ?thesis using p2 by (simp add: resolve_text_passes)
qed

lemma resolve_group_ref:
  assumes g: "is_group_id g"
  shows "resolve_text (xs @ ''<!subteam^'' @ g @ ''>'' @ ys) um gm =
         resolve_text xs um gm @ ''@'' @ dict_get gm g g @ resolve_text ys um gm"
proof -
  from g have ne: "g \<noteq> []" and a: "\<forall>c\<in>set g. id_char c"
    by (auto simp: is_group_id_def list_all_iff)
  let ?S = "''!subteam^'' @ g"
  have Sl: "CHR ''<'' \<notin> set ?S" using a id_char_not_special by auto
  have "pass1 um (xs @ CHR ''<'' # (?S @ ''>'' @ ys)) =
        pass1 um xs @ pass1 um (CHR ''<'' # (?S @ ''>'' @ ys))"
    by (rule re_sub_boundary[OF token_matcher_user]) simp
  also have "pass1 um (CHR ''<'' # (?S @ ''>'' @ ys)) = CHR ''<'' # ?S @ CHR ''>'' # pass1 um ys"
    using re_sub_unmatched_lt[OF token_matcher_user _ Sl, of ys] match_user_ref_not_at[of "CHR ''!''"]
    by simp
  finally have p1: "pass1 um (xs @ ''<!subteam^'' @ g @ ''>'' @ ys) = pass1 um xs @ CHR ''<'' # (?S @ ''>'' @ pass1 um ys)"
    by simp
  have "pass2 um (pass1 um xs @ CHR ''<'' # (?S @ ''>'' @ pass1 um ys)) =
        pass2 um (pass1 um xs) @ pass2 um (CHR ''<'' # (?S @ ''>'' @ pass1 um ys))"
    by (rule re_sub_boundary[OF token_matcher_plain]) simp
  also have "pass2 um (CHR ''<'' # (?S @ ''>'' @ pass1 um ys)) = CHR ''<'' # ?S @ CHR ''>'' # pass2 um (pass1 um ys)"
    using re_sub_unmatched_lt[OF token_matcher_plain _ Sl, of "pass1 um ys"] match_plain_ref_not_U[of "CHR ''!''"]
    by simp
  finally have p2: "pass2 um (pass1 um (xs @ ''<!subteam^'' @ g @ ''>'' @ ys)) =
        pass2 um (pass1 um xs) @ CHR ''<'' # (?S @ ''>'' @ pass2 um (pass1 um ys))"
    using p1 by simp
  have "pass3 gm (pass2 um (pass1 um xs) @ CHR ''<'' # (?S @ ''>'' @ pass2 um (pass1 um ys))) =
        pass3 gm (pass2 um (pass1 um xs)) @ pass3 gm (CHR ''<'' # (?S @ ''>'' @ pass2 um (pass1 um ys)))"
    by (rule re_sub_boundary[OF token_matcher_group]) simp
  also have "pass3 gm (CHR ''<'' # (?S @ ''>'' @ pass2 um (pass1 um ys))) =
       (''@'' @ dict_get gm g g) @ pass3 gm (pass2 um (pass1 um ys))"
    using re_sub_token[of match_group_ref "''<!subteam^'' @ g @ ''>''" "pass2 um (pass1 um ys)" g "\<lambda>g. ''@'' @ dict_get gm g g"]
      match_group_ref_SomeI[OF ne a, of "pass2 um (pass1 um ys)"] by simp
  finally show ?thesis using p2 by (simp add: resolve_text_passes)
qed

subsection \<open>Text without mention tokens\<close>

text \<open>
  Claim C8. A text in which none of the three patterns matches anywhere is returned
  unchanged by \<open>resolve_text\<close>, for every user map and group map; so resolving it a second
  time changes nothing either.
\<close>

theorem resolve_text_no_mention:
  "\<not> has_mention s \<Longrightarrow>
     resolve_text s um gm = s \<and> resolve_text (resolve_text s um gm) um gm = resolve_text s um gm"
  by (simp add: has_mention_def resolve_text_def re_sub_no_match)

text \<open>The theorem at a text with angle brackets that are not tokens.\<close>

theorem resolve_text_no_mention_witness:
  "\<not> has_mention ''a < b, <@u1> <U>'' \<and>
   resolve_text ''a < b, <@u1> <U>'' [''U'' \<mapsto> ''Ann''] [''S1'' \<mapsto> ''devs''] = ''a < b, <@u1> <U>''"
proof -
  have h: "\<not> has_mention ''a < b, <@u1> <U>''" by code_simp
  from resolve_text_no_mention[OF h] h show ?thesis by blast
qed

subsection \<open>A mention token inside a text\<close>

text \<open>
  Claim C7, as amended. A mention token anywhere in a text is replaced, and the text
  before and after it is resolved on its own.
  \<^item> A user reference \<^verbatim>\<open><@ID>\<close> becomes \<^verbatim>\<open>@\<close> followed by the name the user map gives
    to the identifier, or by the identifier when the map does not know it.
  \<^item> A plain reference \<^verbatim>\<open><ID>\<close> becomes the same between angle brackets.
  \<^item> A group reference \<^verbatim>\<open><!subteam^ID>\<close> becomes \<^verbatim>\<open>@\<close> followed by the name the group map
    gives to the identifier, or by the identifier.

  For the first two, the name the user map gives (if it gives one) must hold no \<open><\<close>
  and, after a plain reference, not start with \<open>!\<close>: the later passes read the replaced
  text again. An unknown identifier needs no such condition. \<open>resolve_text\<close> is a total
  function: no input raises.
\<close>

theorem resolve_text_mention:
  "(is_user_id i \<and> known_as no_angle um i \<longrightarrow>
      resolve_text (xs @ ''<@'' @ i @ ''>'' @ ys) um gm =
      resolve_text xs um gm @ ''@'' @ dict_get um i i @ resolve_text ys um gm) \<and>
   (is_plain_id i \<and> known_as plain_name um i \<longrightarrow>
      resolve_text (xs @ ''<'' @ i @ ''>'' @ ys) um gm =
      resolve_text xs um gm @ ''<'' @ dict_get um i i @ ''>'' @ resolve_text ys um gm) \<and>
   (is_group_id g \<longrightarrow>
      resolve_text (xs @ ''<!subteam^'' @ g @ ''>'' @ ys) um gm =
      resolve_text xs um gm @ ''@'' @ dict_get gm g g @ resolve_text ys um gm)"
  using resolve_user_ref resolve_plain_ref resolve_group_ref by blast

text \<open>The theorem at a known user, a known group and an unknown user \<open>W9\<close>.\<close>

theorem resolve_text_mention_witness:
  "is_user_id ''U12'' \<and> is_plain_id ''U12'' \<and> is_group_id ''S1'' \<and>
   known_as no_angle [''U12'' \<mapsto> ''Ann''] ''U12'' \<and>
   known_as plain_name [''U12'' \<mapsto> ''Ann''] ''U12'' \<and>
   resolve_text (''hi '' @ ''<@'' @ ''U12'' @ ''>'' @ '' and <@W9>'') [''U12'' \<mapsto> ''Ann''] [''S1'' \<mapsto> ''devs'']
     = ''hi @Ann and @W9'' \<and>
   resolve_text (''hi '' @ ''<'' @ ''U12'' @ ''>'' @ '' and <@W9>'') [''U12'' \<mapsto> ''Ann''] [''S1'' \<mapsto> ''devs'']
     = ''hi <Ann> and @W9'' \<and>
   resolve_text (''hi '' @ ''<!subteam^'' @ ''S1'' @ ''>'' @ '' and <@W9>'') [''U12'' \<mapsto> ''Ann''] [''S1'' \<mapsto> ''devs'']
     = ''hi @devs and @W9''"
proof -
  have i: "is_user_id ''U12''" "is_plain_id ''U12''" "is_group_id ''S1''"
    by (simp_all add: is_user_id_def is_plain_id_def is_group_id_def id_char_def)
  have k: "known_as no_angle [''U12'' \<mapsto> ''Ann''] ''U12''"
    "known_as plain_name [''U12'' \<mapsto> ''Ann''] ''U12''"
    by (simp_all add: known_as_def plain_name_def no_angle_def)
  have x: "resolve_text ''hi '' [''U12'' \<mapsto> ''Ann''] [''S1'' \<mapsto> ''devs''] = ''hi ''"
    by code_simp
  have y: "resolve_text '' and <@W9>'' [''U12'' \<mapsto> ''Ann''] [''S1'' \<mapsto> ''devs''] = '' and @W9''"
    by code_simp
  have d: "dict_get [''U12'' \<mapsto> ''Ann''] ''U12'' ''U12'' = ''Ann''"
     "dict_get [''S1'' \<mapsto> ''devs''] ''S1'' ''S1'' = ''devs''"
    by (simp_all add: dict_get_def)
  from resolve_text_mention[of "''U12''" "[''U12'' \<mapsto> ''Ann'']" "''hi ''" "'' and <@W9>''" "[''S1'' \<mapsto> ''devs'']" "''S1''"]
    i k x y d show ?thesis by simp
qed

text \<open>
  Claim C7 as stated fails when a display name is itself a token: the user reference of
  \<open>U1\<close>, whose name is \<^verbatim>\<open><U2>\<close>, is not replaced by that name but by the name of \<open>U2\<close>,
  which the second pass substitutes.
\<close>

theorem resolve_text_cascade:
  "is_user_id ''U1'' \<and>
   resolve_text ''<@U1>'' [''U1'' \<mapsto> ''<U2>'', ''U2'' \<mapsto> ''Bob''] Map.empty = ''@<Bob>'' \<and>
   ''@<Bob>'' \<noteq> ''@'' @ dict_get [''U1'' \<mapsto> ''<U2>'', ''U2'' \<mapsto> ''Bob''] ''U1'' ''U1''"
proof -
  have "is_user_id ''U1''" by (simp add: is_user_id_def id_char_def)
  moreover have "resolve_text ''<@U1>'' [''U1'' \<mapsto> ''<U2>'', ''U2'' \<mapsto> ''Bob''] Map.empty = ''@<Bob>''"
    by code_simp
  moreover have "''@<Bob>'' \<noteq> ''@'' @ dict_get [''U1'' \<mapsto> ''<U2>'', ''U2'' \<mapsto> ''Bob''] ''U1'' ''U1''"
    by (simp add: dict_get_def)
  ultimately show ?thesis by blast
qed

section \<open>Proofs: the instances of the examples\<close>

lemma msg_simps [simp]:
  "m_ts (msg t th st) = t" "m_thread_ts (msg t th st) = th" "m_subtype (msg t th st) = st"
  "m_text (msg t th st) = Some ''hello''" "m_user (msg t th st) = None"
  by (simp_all add: msg_def)

lemma msg_eq [simp]: "msg t th st = msg t' th' st' \<longleftrightarrow> t = t' \<and> th = th' \<and> st = st'"
  by (auto simp: msg_def)

lemma dv1: "digits_value ''5'' = 5" "digits_value ''10'' = 10" "digits_value ''15'' = 15"
  "digits_value ''20'' = 20" "digits_value ''30'' = 30" "digits_value ''40'' = 40"
  by (simp_all add: digits_value_def)

section \<open>Proofs: writing a channel\<close>







lemma top_level_written:
  "map snd (filter (\<lambda>e. \<not> fst e) (written_messages to_float messages threads)) = by_ts to_float messages"
proof -
  have "map snd (filter (\<lambda>e. \<not> fst e) (concat (map (\<lambda>m. (False, m) # map (Pair True) (R m)) xs))) = xs"
    for xs :: "message list" and R
    by (induction xs) (simp_all add: filter_empty_conv)
  then show ?thesis by (simp add: written_messages_def)
qed





section \<open>Proofs: the paginated fetches\<close>

subsection \<open>One iteration of each loop\<close>

lemma channels_page_more:
  "\<not> falsy (next_cursor p) \<Longrightarrow>
   fetch_all_channels_loop types acc cur (Returns p # R) evs =
   fetch_all_channels_loop types (acc @ items p) (next_cursor p) R (evs @ [Call (Conversations_list types cur)])"
  by simp

lemma channels_page_last:
  "falsy (next_cursor p) \<Longrightarrow>
   fetch_all_channels_loop types acc cur (Returns p # R) evs =
   Some (Returned (acc @ items p), R, evs @ [Call (Conversations_list types cur)])"
  by simp

lemma channels_raises:
  "fetch_all_channels_loop types acc cur (Raises e # R) evs =
   Some (Raised (Slack_api_error e), R, evs @ [Call (Conversations_list types cur)])"
  by simp

lemma users_page_more:
  "\<not> falsy (next_cursor p) \<Longrightarrow>
   fetch_user_map_loop acc cur b (Returns p # R) evs =
   fetch_user_map_loop (foldl add_member acc (items p)) (next_cursor p) 10 R (evs @ [Call (Users_list cur)])"
  by simp

lemma users_page_last:
  "falsy (next_cursor p) \<Longrightarrow>
   fetch_user_map_loop acc cur b (Returns p # R) evs =
   Some (Returned (foldl add_member acc (items p)), R, evs @ [Call (Users_list cur)])"
  by simp

lemma users_rate_limited:
  "error_code e = ''ratelimited'' \<Longrightarrow> int_header (retry_after e) b = Some wait \<Longrightarrow> 0 \<le> wait \<Longrightarrow>
   fetch_user_map_loop acc cur b (Raises e # R) evs =
   fetch_user_map_loop acc cur (min (b * 2) 120) R
     (evs @ [Call (Users_list cur), Print (Users_rate_limited wait), Sleep (of_int wait)])"
  by simp

lemma users_failed:
  "error_code e \<noteq> ''ratelimited'' \<Longrightarrow>
   fetch_user_map_loop acc cur b (Raises e # R) evs =
   Some (Returned acc, R, evs @ [Call (Users_list cur), Print (Users_failed e)])"
  by simp

lemma thread_page_more:
  "\<not> falsy (next_cursor p) \<Longrightarrow> 0 \<le> tsl \<Longrightarrow>
   fetch_thread_loop ch pts idx n tsl vb acc cur (Returns p # R) evs =
   fetch_thread_loop ch pts idx n tsl vb (acc @ drop 1 (page_messages p)) (next_cursor p) R
     (evs @ thread_call vb ch pts cur @ [Sleep tsl])"
  by (simp add: page_messages_def thread_call_def)

lemma thread_page_last:
  "falsy (next_cursor p) \<Longrightarrow>
   fetch_thread_loop ch pts idx n tsl vb acc cur (Returns p # R) evs =
   Some (Returned (acc @ drop 1 (page_messages p)), R, evs @ thread_call vb ch pts cur)"
  by (simp add: page_messages_def thread_call_def)

lemma thread_rate_limited:
  "error_code e = ''ratelimited'' \<Longrightarrow> int_header (retry_after e) 30 = Some wait \<Longrightarrow> 0 \<le> wait \<Longrightarrow>
   fetch_thread_loop ch pts idx n tsl vb acc cur (Raises e # R) evs =
   fetch_thread_loop ch pts idx n tsl vb acc cur R
     (evs @ thread_call vb ch pts cur @ [Print (Thread_rate_limited idx n wait), Sleep (of_int wait)])"
  by (simp add: thread_call_def)

lemma thread_failed:
  "error_code e \<noteq> ''ratelimited'' \<Longrightarrow>
   fetch_thread_loop ch pts idx n tsl vb acc cur (Raises e # R) evs =
   Some (Returned acc, R, evs @ thread_call vb ch pts cur @ [Print (Replies_failed e)])"
  by (simp add: thread_call_def)

lemma history_page_more:
  "\<not> falsy (next_cursor p) \<Longrightarrow>
   fetch_history_loop flt ch s e acc cur (Returns p # R) evs =
   fetch_history_loop flt ch s e (foldl (history_step flt s e) acc (items p)) (next_cursor p) R
     (evs @ [Call (Conversations_history ch cur s e), Sleep 1])"
  by simp

lemma history_page_last:
  "falsy (next_cursor p) \<Longrightarrow>
   fetch_history_loop flt ch s e acc cur (Returns p # R) evs =
   Some (Returned (foldl (history_step flt s e) acc (items p)), R,
         evs @ [Call (Conversations_history ch cur s e)])"
  by simp

lemma history_rate_limited:
  "error_code x = ''ratelimited'' \<Longrightarrow> int_header (retry_after x) 30 = Some wait \<Longrightarrow> 0 \<le> wait \<Longrightarrow>
   fetch_history_loop flt ch s e acc cur (Raises x # R) evs =
   fetch_history_loop flt ch s e acc cur R
     (evs @ [Call (Conversations_history ch cur s e), Print (History_rate_limited wait),
             Sleep (of_int wait), Sleep 1])"
  by simp

lemma history_failed:
  "error_code x \<noteq> ''ratelimited'' \<Longrightarrow>
   fetch_history_loop flt ch s e acc cur (Raises x # R) evs =
   Some (Returned acc, R, evs @ [Call (Conversations_history ch cur s e), Print (History_failed x)])"
  by simp

lemmas loop_simps =
  fetch_all_channels_loop.simps(2) fetch_user_map_loop.simps(2)
  fetch_thread_loop.simps(2) fetch_history_loop.simps(2)

declare loop_simps [simp del]

lemma channels_paged:
  "paged ps \<Longrightarrow> \<exists>evs'. fetch_all_channels_loop types acc cur (map Returns ps @ rest) evs =
      Some (Returned (acc @ concat (map items ps)), rest, evs')"
proof (induction ps arbitrary: acc cur evs rule: paged.induct)
  case 1
  then show ?case by simp
next
  case (2 p)
  then show ?case by (simp add: channels_page_last)
next
  case (3 p q ps)
  from 3 have nf: "\<not> falsy (next_cursor p)" and pg: "paged (q # ps)" by simp_all
  from "3.IH"[OF pg, of "acc @ items p" "next_cursor p" "evs @ [Call (Conversations_list types cur)]"]
  show ?case using nf by (simp add: channels_page_more)
qed

lemma channels_unfinished:
  "list_all (\<lambda>p. \<not> falsy (next_cursor p)) ps \<Longrightarrow>
     fetch_all_channels_loop types acc cur (map Returns ps) evs = None"
  by (induction ps arbitrary: acc cur evs) (simp_all add: channels_page_more)

lemma users_paged:
  "paged ps \<Longrightarrow> \<exists>evs'. fetch_user_map_loop acc cur b (map Returns ps @ rest) evs =
      Some (Returned (foldl add_member acc (concat (map items ps))), rest, evs')"
proof (induction ps arbitrary: acc cur b evs rule: paged.induct)
  case 1
  then show ?case by simp
next
  case (2 p)
  then show ?case by (simp add: users_page_last)
next
  case (3 p q ps)
  from 3 have nf: "\<not> falsy (next_cursor p)" and pg: "paged (q # ps)" by simp_all
  from "3.IH"[OF pg, of "foldl add_member acc (items p)" "next_cursor p" 10 "evs @ [Call (Users_list cur)]"]
  show ?case using nf by (simp add: users_page_more)
qed

lemma user_map_dom: "dom (foldl add_member m us) = dom m \<union> u_id ` set us"
  by (induction us arbitrary: m) (auto simp: add_member_def)

lemma users_unfinished:
  "list_all (\<lambda>p. \<not> falsy (next_cursor p)) ps \<Longrightarrow>
     fetch_user_map_loop acc cur b (map Returns ps) evs = None"
  by (induction ps arbitrary: acc cur b evs) (simp_all add: users_page_more)

lemma thread_paged:
  "paged ps \<Longrightarrow> 0 \<le> tsl \<Longrightarrow> \<exists>evs'. fetch_thread_loop ch pts idx n tsl vb acc cur (map Returns ps @ rest) evs =
      Some (Returned (acc @ concat (map (\<lambda>p. drop 1 (page_messages p)) ps)), rest, evs')"
proof (induction ps arbitrary: acc cur evs rule: paged.induct)
  case 1
  then show ?case by simp
next
  case (2 p)
  then show ?case by (simp add: thread_page_last)
next
  case (3 p q ps)
  from 3 have nf: "\<not> falsy (next_cursor p)" and pg: "paged (q # ps)" by simp_all
  from "3.IH"[OF pg "3.prems"(2), of "acc @ drop 1 (page_messages p)" "next_cursor p"
      "evs @ thread_call vb ch pts cur @ [Sleep tsl]"]
  show ?case using nf "3.prems"(2) by (simp add: thread_page_more)
qed

lemma thread_unfinished:
  "list_all (\<lambda>p. \<not> falsy (next_cursor p)) ps \<Longrightarrow> 0 \<le> tsl \<Longrightarrow>
     fetch_thread_loop ch pts idx n tsl vb acc cur (map Returns ps) evs = None"
  by (induction ps arbitrary: acc cur evs) (simp_all add: thread_page_more)

lemma history_paged:
  "paged ps \<Longrightarrow> \<exists>evs'. fetch_history_loop flt ch s e acc cur (map Returns ps @ rest) evs =
      Some (Returned (foldl (history_step flt s e) acc (concat (map items ps))), rest, evs')"
proof (induction ps arbitrary: acc cur evs rule: paged.induct)
  case 1
  then show ?case by simp
next
  case (2 p)
  then show ?case by (simp add: history_page_last)
next
  case (3 p q ps)
  from 3 have nf: "\<not> falsy (next_cursor p)" and pg: "paged (q # ps)" by simp_all
  from "3.IH"[OF pg, of "foldl (history_step flt s e) acc (items p)" "next_cursor p"
      "evs @ [Call (Conversations_history ch cur s e), Sleep 1]"]
  show ?case using nf by (simp add: history_page_more)
qed

lemma history_unfinished:
  "list_all (\<lambda>p. \<not> falsy (next_cursor p)) ps \<Longrightarrow>
     fetch_history_loop flt ch s e acc cur (map Returns ps) evs = None"
  by (induction ps arbitrary: acc cur evs) (simp_all add: history_page_more)

subsection \<open>What a returned value is made of\<close>

lemma channels_returned:
  "fetch_all_channels_loop types acc cur rs evs = Some (Returned res, rs', evs') \<Longrightarrow>
   \<exists>used. rs = used @ rs' \<and> res = acc @ concat (map items (pages_of used))"
proof (induction rs arbitrary: acc cur evs)
  case Nil
  then show ?case by simp
next
  case (Cons r rs)
  show ?case
  proof (cases r)
    case (Raises x)
    with Cons.prems show ?thesis by (simp add: channels_raises)
  next
    case (Returns p)
    show ?thesis
    proof (cases "falsy (next_cursor p)")
      case True
      with Cons.prems Returns have "rs' = rs" "res = acc @ items p"
        by (simp_all add: channels_page_last)
      then have "r # rs = [r] @ rs' \<and> res = acc @ concat (map items (pages_of [r]))"
        using Returns by simp
      then show ?thesis by blast
    next
      case False
      with Cons.prems Returns have
        "fetch_all_channels_loop types (acc @ items p) (next_cursor p) rs
           (evs @ [Call (Conversations_list types cur)]) = Some (Returned res, rs', evs')"
        by (simp add: channels_page_more)
      from Cons.IH[OF this] obtain used where
        "rs = used @ rs'" "res = (acc @ items p) @ concat (map items (pages_of used))"
        by blast
      then have "r # rs = (r # used) @ rs' \<and> res = acc @ concat (map items (pages_of (r # used)))"
        using Returns by simp
      then show ?thesis by blast
    qed
  qed
qed

lemma users_returned:
  "fetch_user_map_loop acc cur b rs evs = Some (Returned res, rs', evs') \<Longrightarrow>
   \<exists>used. rs = used @ rs' \<and> res = foldl add_member acc (concat (map items (pages_of used)))"
proof (induction rs arbitrary: acc cur b evs)
  case Nil
  then show ?case by simp
next
  case (Cons r rs)
  show ?case
  proof (cases r)
    case (Raises x)
    show ?thesis
    proof (cases "error_code x = ''ratelimited''")
      case False
      with Cons.prems Raises have "rs' = rs" "res = acc" by (simp_all add: users_failed)
      then have "r # rs = [r] @ rs' \<and> res = foldl add_member acc (concat (map items (pages_of [r])))"
        using Raises by simp
      then show ?thesis by blast
    next
      case True
      with Cons.prems Raises obtain wait where
        w: "int_header (retry_after x) b = Some wait" "0 \<le> wait"
        by (cases "int_header (retry_after x) b")
           (auto simp: loop_simps Let_def split: if_splits)
      with Cons.prems Raises True have
        "fetch_user_map_loop acc cur (min (b * 2) 120) rs
           (evs @ [Call (Users_list cur), Print (Users_rate_limited wait), Sleep (of_int wait)])
         = Some (Returned res, rs', evs')"
        by (simp add: users_rate_limited)
      from Cons.IH[OF this] obtain used where
        "rs = used @ rs'" "res = foldl add_member acc (concat (map items (pages_of used)))"
        by blast
      then have "r # rs = (r # used) @ rs' \<and> res = foldl add_member acc (concat (map items (pages_of (r # used))))"
        using Raises by simp
      then show ?thesis by blast
    qed
  next
    case (Returns p)
    show ?thesis
    proof (cases "falsy (next_cursor p)")
      case True
      with Cons.prems Returns have "rs' = rs" "res = foldl add_member acc (items p)"
        by (simp_all add: users_page_last)
      then have "r # rs = [r] @ rs' \<and> res = foldl add_member acc (concat (map items (pages_of [r])))"
        using Returns by simp
      then show ?thesis by blast
    next
      case False
      with Cons.prems Returns have
        "fetch_user_map_loop (foldl add_member acc (items p)) (next_cursor p) 10 rs
           (evs @ [Call (Users_list cur)]) = Some (Returned res, rs', evs')"
        by (simp add: users_page_more)
      from Cons.IH[OF this] obtain used where
        "rs = used @ rs'" "res = foldl add_member (foldl add_member acc (items p)) (concat (map items (pages_of used)))"
        by blast
      then have "r # rs = (r # used) @ rs' \<and> res = foldl add_member acc (concat (map items (pages_of (r # used))))"
        using Returns by simp
      then show ?thesis by blast
    qed
  qed
qed

lemma thread_returned:
  "fetch_thread_loop ch pts idx n tsl vb acc cur rs evs = Some (Returned res, rs', evs') \<Longrightarrow>
   \<exists>used. rs = used @ rs' \<and> res = acc @ concat (map (\<lambda>p. drop 1 (page_messages p)) (pages_of used))"
proof (induction rs arbitrary: acc cur evs)
  case Nil
  then show ?case by simp
next
  case (Cons r rs)
  show ?case
  proof (cases r)
    case (Raises x)
    show ?thesis
    proof (cases "error_code x = ''ratelimited''")
      case False
      with Cons.prems Raises have "rs' = rs" "res = acc" by (simp_all add: thread_failed)
      then have "r # rs = [r] @ rs' \<and> res = acc @ concat (map (\<lambda>p. drop 1 (page_messages p)) (pages_of [r]))"
        using Raises by simp
      then show ?thesis by blast
    next
      case True
      with Cons.prems Raises obtain wait where
        w: "int_header (retry_after x) 30 = Some wait" "0 \<le> wait"
        by (cases "int_header (retry_after x) 30")
           (auto simp: loop_simps Let_def split: if_splits)
      with Cons.prems Raises True have
        "fetch_thread_loop ch pts idx n tsl vb acc cur rs
           (evs @ thread_call vb ch pts cur @ [Print (Thread_rate_limited idx n wait), Sleep (of_int wait)])
         = Some (Returned res, rs', evs')"
        by (simp add: thread_rate_limited)
      from Cons.IH[OF this] obtain used where
        "rs = used @ rs'" "res = acc @ concat (map (\<lambda>p. drop 1 (page_messages p)) (pages_of used))"
        by blast
      then have "r # rs = (r # used) @ rs' \<and> res = acc @ concat (map (\<lambda>p. drop 1 (page_messages p)) (pages_of (r # used)))"
        using Raises by simp
      then show ?thesis by blast
    qed
  next
    case (Returns p)
    show ?thesis
    proof (cases "falsy (next_cursor p)")
      case True
      with Cons.prems Returns have "rs' = rs" "res = acc @ drop 1 (page_messages p)"
        by (simp_all add: thread_page_last)
      then have "r # rs = [r] @ rs' \<and> res = acc @ concat (map (\<lambda>p. drop 1 (page_messages p)) (pages_of [r]))"
        using Returns by simp
      then show ?thesis by blast
    next
      case False
      with Cons.prems Returns have nn: "0 \<le> tsl"
        by (auto simp: loop_simps Let_def split: if_splits)
      with False Cons.prems Returns have
        "fetch_thread_loop ch pts idx n tsl vb (acc @ drop 1 (page_messages p)) (next_cursor p) rs
           (evs @ thread_call vb ch pts cur @ [Sleep tsl]) = Some (Returned res, rs', evs')"
        by (simp add: thread_page_more)
      from Cons.IH[OF this] obtain used where
        "rs = used @ rs'" "res = (acc @ drop 1 (page_messages p)) @ concat (map (\<lambda>p. drop 1 (page_messages p)) (pages_of used))"
        by blast
      then have "r # rs = (r # used) @ rs' \<and> res = acc @ concat (map (\<lambda>p. drop 1 (page_messages p)) (pages_of (r # used)))"
        using Returns by simp
      then show ?thesis by blast
    qed
  qed
qed


lemma history_step_kept:
  "history_step flt s e (tops, threads) m =
     (if kept flt s e m
      then (tops @ [m], if is_parent m then AList.update (m_ts m) [] threads else threads)
      else (tops, threads))"
  by (auto simp: history_step_def kept_def in_window_def is_parent_def Let_def)

lemma fold_history_tops:
  "fst (foldl (history_step flt s e) (tops, threads) ms) = tops @ filter (kept flt s e) ms"
  by (induction ms arbitrary: tops threads) (simp_all add: history_step_kept)







lemmas run_simps = loop_simps falsy_def int_header_def Let_def

subsection \<open>The replies of a thread\<close>

text \<open>
  Claim C10. Whenever \<open>fetch_thread\<close> returns, the result is the concatenation, over the
  pages it received, of the page's messages without the first one. And it does return
  when the server sends a run of pages (the pacing sleep not negative): on a single page
  the parent, which comes first, is left out and the replies are returned; on several
  pages the first message of every page is left out.
\<close>

theorem fetch_thread_replies:
  "(fetch_thread ch pts idx n tsl vb rs evs = Some (Returned replies, rs', evs') \<longrightarrow>
      (\<exists>used. rs = used @ rs' \<and>
         replies = concat (map (\<lambda>p. drop 1 (page_messages p)) (pages_of used)))) \<and>
   (paged ps \<and> 0 \<le> tsl \<longrightarrow>
      (\<exists>evs'. fetch_thread ch pts idx n tsl vb (map Returns ps @ rest) evs =
         Some (Returned (concat (map (\<lambda>p. drop 1 (page_messages p)) ps)), rest, evs')))"
  using thread_returned[of ch pts idx n tsl vb "[]" None rs evs replies rs' evs']
    thread_paged[of ps tsl ch pts idx n vb "[]" None rest evs]
  by (simp add: fetch_thread_def)

text \<open>The theorem on a thread of two pages, with a rate limit between them.\<close>

theorem fetch_thread_replies_witness:
  "fetch_thread ''C1'' ''10'' 1 1 0 False
     [Returns \<lparr>items = Some [msg ''10'' (Some ''10'') None, msg ''30'' (Some ''10'') None],
               next_cursor = Some ''c1''\<rparr>,
      Raises (SlackApiError ''ratelimited'' No_header),
      Returns \<lparr>items = Some [msg ''10'' (Some ''10'') None, msg ''40'' (Some ''10'') None],
               next_cursor = None\<rparr>] [] =
   Some (Returned [msg ''30'' (Some ''10'') None, msg ''40'' (Some ''10'') None], [],
         [Call (Conversations_replies ''C1'' ''10'' None), Sleep 0,
          Call (Conversations_replies ''C1'' ''10'' (Some ''c1'')), Print (Thread_rate_limited 1 1 30), Sleep 30,
          Call (Conversations_replies ''C1'' ''10'' (Some ''c1''))]) \<and>
   (\<exists>used.
      [Returns \<lparr>items = Some [msg ''10'' (Some ''10'') None, msg ''30'' (Some ''10'') None],
                next_cursor = Some ''c1''\<rparr>,
       Raises (SlackApiError ''ratelimited'' No_header),
       Returns \<lparr>items = Some [msg ''10'' (Some ''10'') None, msg ''40'' (Some ''10'') None],
                next_cursor = None\<rparr>] = used @ [] \<and>
      [msg ''30'' (Some ''10'') None, msg ''40'' (Some ''10'') None] =
        concat (map (\<lambda>p. drop 1 (page_messages p)) (pages_of used)))"
proof -
  have run: "fetch_thread ''C1'' ''10'' 1 1 0 False
     [Returns \<lparr>items = Some [msg ''10'' (Some ''10'') None, msg ''30'' (Some ''10'') None],
               next_cursor = Some ''c1''\<rparr>,
      Raises (SlackApiError ''ratelimited'' No_header),
      Returns \<lparr>items = Some [msg ''10'' (Some ''10'') None, msg ''40'' (Some ''10'') None],
               next_cursor = None\<rparr>] [] =
   Some (Returned [msg ''30'' (Some ''10'') None, msg ''40'' (Some ''10'') None], [],
         [Call (Conversations_replies ''C1'' ''10'' None), Sleep 0,
          Call (Conversations_replies ''C1'' ''10'' (Some ''c1'')), Print (Thread_rate_limited 1 1 30), Sleep 30,
          Call (Conversations_replies ''C1'' ''10'' (Some ''c1''))])"
    by (simp add: fetch_thread_def run_simps)
  from fetch_thread_replies[THEN conjunct1, rule_format, OF run] run show ?thesis by blast
qed

subsection \<open>Pagination\<close>

text \<open>
  Claim C1 as stated fails for \<open>fetch_thread\<close>: of a page with the parent and one reply
  it returns the reply alone, not the items of the page.
\<close>

theorem fetch_thread_drops_first:
  "fetch_thread ''C1'' ''10'' 1 1 0 False
     [Returns \<lparr>items = Some [msg ''10'' (Some ''10'') None, msg ''30'' (Some ''10'') None],
               next_cursor = None\<rparr>] [] =
   Some (Returned [msg ''30'' (Some ''10'') None], [], [Call (Conversations_replies ''C1'' ''10'' None)]) \<and>
   [msg ''30'' (Some ''10'') None] \<noteq>
   concat (map page_messages
     [\<lparr>items = Some [msg ''10'' (Some ''10'') None, msg ''30'' (Some ''10'') None], next_cursor = None\<rparr>])"
  by (simp add: fetch_thread_def run_simps page_messages_def)

text \<open>
  Claim C1, as amended. When the server answers each call with a page, every loop stops
  at the first page without a next cursor, leaving the later answers unread, and does
  not stop before: on pages that all carry a next cursor it is still running when they
  are used up. What it returns is made of the pages in order:
  \<^item> \<open>fetch_all_channels\<close>: the concatenation of their items;
  \<^item> \<open>fetch_user_map\<close>: the dictionary filled with every member of every page, in order;
  \<^item> \<open>fetch_channel_structured\<close>, for its top-level messages: the messages that pass the
    subtype filter and the time window, in order (this is what the history loop
    returns, and what the function returns whenever it returns);
  \<^item> \<open>fetch_thread\<close>: the messages of every page but its first one.
\<close>

theorem paginated_fetch_pages:
  "(paged cs \<longrightarrow>
      (\<exists>evs'. fetch_all_channels types (map Returns cs @ crest) evs =
         Some (Returned (concat (map items cs)), crest, evs'))) \<and>
   (paged us \<longrightarrow>
      (\<exists>evs'. fetch_user_map (map Returns us @ urest) evs =
         Some (Returned (foldl add_member Map.empty (concat (map items us))), urest, evs'))) \<and>
   (paged hs \<longrightarrow>
      (\<exists>threads evs'. fetch_history_loop to_float ch_id start_ts end_ts ([], []) None (map Returns hs @ hrest) evs =
         Some (Returned (filter (kept to_float start_ts end_ts) (concat (map items hs)), threads), hrest, evs'))) \<and>
   (paged hs \<and>
    fetch_channel_structured to_float ch_id start_ts end_ts thread_sleep verbose (map Returns hs @ hrest) rs evs =
      Some (Returned (tops, threads), hs', rs', evs') \<longrightarrow>
      tops = filter (kept to_float start_ts end_ts) (concat (map items hs)) \<and> hs' = hrest) \<and>
   (paged ts \<and> 0 \<le> thread_sleep \<longrightarrow>
      (\<exists>evs'. fetch_thread ch_id parent_ts idx n thread_sleep verbose (map Returns ts @ trest) evs =
         Some (Returned (concat (map (\<lambda>p. drop 1 (page_messages p)) ts)), trest, evs'))) \<and>
   (list_all (\<lambda>p. \<not> falsy (next_cursor p)) cs \<longrightarrow>
      fetch_all_channels types (map Returns cs) evs = None) \<and>
   (list_all (\<lambda>p. \<not> falsy (next_cursor p)) us \<longrightarrow>
      fetch_user_map (map Returns us) evs = None) \<and>
   (list_all (\<lambda>p. \<not> falsy (next_cursor p)) hs \<longrightarrow>
      fetch_history_loop to_float ch_id start_ts end_ts ([], []) None (map Returns hs) evs = None) \<and>
   (list_all (\<lambda>p. \<not> falsy (next_cursor p)) ts \<and> 0 \<le> thread_sleep \<longrightarrow>
      fetch_thread ch_id parent_ts idx n thread_sleep verbose (map Returns ts) evs = None)"
proof -
  have h: "\<exists>threads evs'. fetch_history_loop to_float ch_id start_ts end_ts ([], []) None (map Returns hs @ hrest) evs =
         Some (Returned (filter (kept to_float start_ts end_ts) (concat (map items hs)), threads), hrest, evs')"
    if "paged hs"
  proof -
    from history_paged[OF that, of to_float ch_id start_ts end_ts "([], [])" None hrest evs]
    obtain evs' where r: "fetch_history_loop to_float ch_id start_ts end_ts ([], []) None (map Returns hs @ hrest) evs =
      Some (Returned (foldl (history_step to_float start_ts end_ts) ([], []) (concat (map items hs))), hrest, evs')"
      by blast
    obtain tops threads where f:
      "foldl (history_step to_float start_ts end_ts) ([], []) (concat (map items hs)) = (tops, threads)"
      by (cases "foldl (history_step to_float start_ts end_ts) ([], []) (concat (map items hs))")
    from fold_history_tops[of to_float start_ts end_ts "[]" "[]" "concat (map items hs)"] f
    have "tops = filter (kept to_float start_ts end_ts) (concat (map items hs))" by simp
    with r f show ?thesis by auto
  qed
  have f: "tops = filter (kept to_float start_ts end_ts) (concat (map items hs)) \<and> hs' = hrest"
    if "paged hs" and "fetch_channel_structured to_float ch_id start_ts end_ts thread_sleep verbose
         (map Returns hs @ hrest) rs evs = Some (Returned (tops, threads), hs', rs', evs')"
  proof -
    from h[OF that(1)] obtain threads0 evs0 where
      "fetch_history_loop to_float ch_id start_ts end_ts ([], []) None (map Returns hs @ hrest) evs =
         Some (Returned (filter (kept to_float start_ts end_ts) (concat (map items hs)), threads0), hrest, evs0)"
      by blast
    with that(2) show ?thesis
      by (auto simp: fetch_channel_structured_def split: option.splits outcome.splits)
  qed
  show ?thesis
    using channels_paged[of cs types "[]" None crest evs]
      users_paged[of us Map.empty None 10 urest evs]
      thread_paged[of ts thread_sleep ch_id parent_ts idx n verbose "[]" None trest evs]
      channels_unfinished[of cs types "[]" None evs]
      users_unfinished[of us Map.empty None 10 evs]
      history_unfinished[of hs to_float ch_id start_ts end_ts "([], [])" None evs]
      thread_unfinished[of ts thread_sleep ch_id parent_ts idx n verbose "[]" None evs]
      h f
    by (simp add: fetch_all_channels_def fetch_user_map_def fetch_thread_def)
qed

text \<open>The theorem on one run of pages and on one unfinished run for each loop.\<close>

theorem paginated_fetch_pages_witness:
  "paged [\<lparr>items = [''general''], next_cursor = Some ''c1''\<rparr>, \<lparr>items = [''random''], next_cursor = Some ''''\<rparr>] \<and>
   (\<exists>evs'. fetch_all_channels ''public_channel'' (map Returns [\<lparr>items = [''general''], next_cursor = Some ''c1''\<rparr>, \<lparr>items = [''random''], next_cursor = Some ''''\<rparr>] @ []) [] =
      Some (Returned [''general'', ''random''], [], evs')) \<and>
   paged [\<lparr>items = [\<lparr>u_id = ''U1'', u_real_name = Some '''', u_name = Some ''ann''\<rparr>], next_cursor = None\<rparr>] \<and>
   (\<exists>evs'. fetch_user_map (map Returns [\<lparr>items = [\<lparr>u_id = ''U1'', u_real_name = Some '''', u_name = Some ''ann''\<rparr>], next_cursor = None\<rparr>] @ []) [] =
      Some (Returned [''U1'' \<mapsto> ''ann''], [], evs')) \<and>
   paged [\<lparr>items = [msg ''5'' None None, msg ''20'' None (Some ''channel_join''), msg ''30'' None None], next_cursor = None\<rparr>] \<and>
   (\<exists>threads evs'. fetch_history_loop digits_value ''C1'' 10 40 ([], []) None (map Returns [\<lparr>items = [msg ''5'' None None, msg ''20'' None (Some ''channel_join''), msg ''30'' None None], next_cursor = None\<rparr>] @ []) [] =
      Some (Returned ([msg ''30'' None None], threads), [], evs')) \<and>
   fetch_channel_structured digits_value ''C1'' 10 40 0 True (map Returns [\<lparr>items = [msg ''5'' None None, msg ''20'' None (Some ''channel_join''), msg ''30'' None None], next_cursor = None\<rparr>] @ []) [] [] =
      Some (Returned ([msg ''30'' None None], []), [], [], [Call (Conversations_history ''C1'' None 10 40)]) \<and>
   [msg ''30'' None None] = filter (kept digits_value 10 40) (concat (map items [\<lparr>items = [msg ''5'' None None, msg ''20'' None (Some ''channel_join''), msg ''30'' None None], next_cursor = None\<rparr>])) \<and>
   paged [\<lparr>items = Some [msg ''10'' (Some ''10'') None, msg ''30'' (Some ''10'') None], next_cursor = None\<rparr>] \<and>
   (\<exists>evs'. fetch_thread ''C1'' ''10'' 1 1 0 True (map Returns [\<lparr>items = Some [msg ''10'' (Some ''10'') None, msg ''30'' (Some ''10'') None], next_cursor = None\<rparr>] @ []) [] =
      Some (Returned [msg ''30'' (Some ''10'') None], [], evs')) \<and>
   list_all (\<lambda>p. \<not> falsy (next_cursor p)) [\<lparr>items = [''general''], next_cursor = Some ''c1''\<rparr>] \<and>
   fetch_all_channels ''public_channel'' (map Returns [\<lparr>items = [''general''], next_cursor = Some ''c1''\<rparr>]) [] = None \<and>
   list_all (\<lambda>p. \<not> falsy (next_cursor p)) [\<lparr>items = [\<lparr>u_id = ''U1'', u_real_name = Some '''', u_name = Some ''ann''\<rparr>], next_cursor = Some ''c1''\<rparr>] \<and>
   fetch_user_map (map Returns [\<lparr>items = [\<lparr>u_id = ''U1'', u_real_name = Some '''', u_name = Some ''ann''\<rparr>], next_cursor = Some ''c1''\<rparr>]) [] = None \<and>
   list_all (\<lambda>p. \<not> falsy (next_cursor p)) [\<lparr>items = [msg ''30'' None None], next_cursor = Some ''c1''\<rparr>] \<and>
   fetch_history_loop digits_value ''C1'' 10 40 ([], []) None (map Returns [\<lparr>items = [msg ''30'' None None], next_cursor = Some ''c1''\<rparr>]) [] = None \<and>
   list_all (\<lambda>p. \<not> falsy (next_cursor p)) [\<lparr>items = Some [msg ''10'' (Some ''10'') None, msg ''30'' (Some ''10'') None], next_cursor = Some ''c1''\<rparr>] \<and>
   fetch_thread ''C1'' ''10'' 1 1 0 True (map Returns [\<lparr>items = Some [msg ''10'' (Some ''10'') None, msg ''30'' (Some ''10'') None], next_cursor = Some ''c1''\<rparr>]) [] = None"
proof -
  let ?cs = "[\<lparr>items = [''general''], next_cursor = Some ''c1''\<rparr>, \<lparr>items = [''random''], next_cursor = Some ''''\<rparr>]"
  let ?us = "[\<lparr>items = [\<lparr>u_id = ''U1'', u_real_name = Some '''', u_name = Some ''ann''\<rparr>], next_cursor = None\<rparr>]"
  let ?hs = "[\<lparr>items = [msg ''5'' None None, msg ''20'' None (Some ''channel_join''), msg ''30'' None None], next_cursor = None :: string option\<rparr>]"
  let ?ts = "[\<lparr>items = Some [msg ''10'' (Some ''10'') None, msg ''30'' (Some ''10'') None], next_cursor = None :: string option\<rparr>]"
  let ?cs' = "[\<lparr>items = [''general''], next_cursor = Some ''c1''\<rparr>]"
  let ?us' = "[\<lparr>items = [\<lparr>u_id = ''U1'', u_real_name = Some '''', u_name = Some ''ann''\<rparr>], next_cursor = Some ''c1''\<rparr>]"
  let ?hs' = "[\<lparr>items = [msg ''30'' None None], next_cursor = Some ''c1''\<rparr>]"
  let ?ts' = "[\<lparr>items = Some [msg ''10'' (Some ''10'') None, msg ''30'' (Some ''10'') None], next_cursor = Some ''c1''\<rparr>]"
  have p: "paged ?cs" "paged ?us" "paged ?hs" "paged ?ts" by (simp_all add: falsy_def)
  have u: "list_all (\<lambda>p. \<not> falsy (next_cursor p)) ?cs'" "list_all (\<lambda>p. \<not> falsy (next_cursor p)) ?us'" "list_all (\<lambda>p. \<not> falsy (next_cursor p)) ?hs'" "list_all (\<lambda>p. \<not> falsy (next_cursor p)) ?ts'"
    by (simp_all add: falsy_def)
  have m: "foldl add_member Map.empty (concat (map items ?us)) = [''U1'' \<mapsto> ''ann'']"
    by (simp add: add_member_def py_or_def)
  have k: "filter (kept digits_value 10 40) (concat (map items ?hs)) = [msg ''30'' None None]"
    by (simp add: kept_def in_window_def dv1)
  have t: "concat (map (\<lambda>p. drop 1 (page_messages p)) ?ts) = [msg ''30'' (Some ''10'') None]"
    by (simp add: page_messages_def)
  have z: "(0::rat) \<le> 0" by simp
  have run: "fetch_channel_structured digits_value ''C1'' 10 40 0 True (map Returns ?hs @ []) [] [] =
      Some (Returned ([msg ''30'' None None], []), [], [], [Call (Conversations_history ''C1'' None 10 40)])"
    by (simp add: fetch_channel_structured_def run_simps history_step_def dv1)
  note w = paginated_fetch_pages[where cs = ?cs and us = ?us and hs = ?hs and ts = ?ts
      and types = "''public_channel''" and crest = "[]" and urest = "[]" and hrest = "[]" and trest = "[]"
      and evs = "[]" and to_float = digits_value and ch_id = "''C1''" and start_ts = 10 and end_ts = 40
      and parent_ts = "''10''" and idx = 1 and n = 1 and thread_sleep = 0 and verbose = True
      and rs = "[]" and tops = "[msg ''30'' None None]" and threads = "[]" and hs' = "[]" and rs' = "[]"
      and evs' = "[Call (Conversations_history ''C1'' None 10 40)]"]
  note w' = paginated_fetch_pages[where cs = ?cs' and us = ?us' and hs = ?hs' and ts = ?ts'
      and types = "''public_channel''" and evs = "[]" and to_float = digits_value and ch_id = "''C1''"
      and start_ts = 10 and end_ts = 40 and parent_ts = "''10''" and idx = 1 and n = 1
      and thread_sleep = 0 and verbose = True]
  from w p z have a:
    "\<exists>evs'. fetch_all_channels ''public_channel'' (map Returns ?cs @ []) [] = Some (Returned (concat (map items ?cs)), [], evs')"
    "\<exists>evs'. fetch_user_map (map Returns ?us @ []) [] =
         Some (Returned (foldl add_member Map.empty (concat (map items ?us))), [], evs')"
    "\<exists>threads evs'. fetch_history_loop digits_value ''C1'' 10 40 ([], []) None (map Returns ?hs @ []) [] =
         Some (Returned (filter (kept digits_value 10 40) (concat (map items ?hs)), threads), [], evs')"
    "\<exists>evs'. fetch_thread ''C1'' ''10'' 1 1 0 True (map Returns ?ts @ []) [] =
         Some (Returned (concat (map (\<lambda>p. drop 1 (page_messages p)) ?ts)), [], evs')"
    by blast+
  from w p(3) run have b: "[msg ''30'' None None] = filter (kept digits_value 10 40) (concat (map items ?hs))"
    by blast
  from w' u z have c:
    "fetch_all_channels ''public_channel'' (map Returns ?cs') [] = None"
    "fetch_user_map (map Returns ?us') [] = None"
    "fetch_history_loop digits_value ''C1'' 10 40 ([], []) None (map Returns ?hs') [] = None"
    "fetch_thread ''C1'' ''10'' 1 1 0 True (map Returns ?ts') [] = None"
    by blast+
  have a': 
    "\<exists>evs'. fetch_all_channels ''public_channel'' (map Returns ?cs @ []) [] = Some (Returned [''general'', ''random''], [], evs')"
    "\<exists>evs'. fetch_user_map (map Returns ?us @ []) [] = Some (Returned [''U1'' \<mapsto> ''ann''], [], evs')"
    "\<exists>threads evs'. fetch_history_loop digits_value ''C1'' 10 40 ([], []) None (map Returns ?hs @ []) [] =
         Some (Returned ([msg ''30'' None None], threads), [], evs')"
    "\<exists>evs'. fetch_thread ''C1'' ''10'' 1 1 0 True (map Returns ?ts @ []) [] =
         Some (Returned [msg ''30'' (Some ''10'') None], [], evs')"
    using a unfolding m k t by simp_all
  show ?thesis
    using p u a' run b c by (intro conjI)
qed

subsection \<open>Rate limits and other errors\<close>

text \<open>
  In the three loops with an \<open>except\<close> clause, rate limits change nothing in the result:
  on a run of pages with recoverable rate limits anywhere between them, the loop returns
  what it returns on the pages alone, and leaves the later answers unread.
\<close>

lemma retriable_wait:
  "retriable e \<Longrightarrow> 0 \<le> dflt \<Longrightarrow> \<exists>wait. int_header (retry_after e) dflt = Some wait \<and> 0 \<le> wait"
  by (auto simp: retriable_def int_header_def split: retry_after_header.splits)

lemma users_rate_limited_run:
  "rate_limited_run script \<Longrightarrow> 0 \<le> b \<Longrightarrow>
   \<exists>evs'. fetch_user_map_loop acc cur b (script @ rest) evs =
      Some (Returned (foldl add_member acc (concat (map items (pages_of script)))), rest, evs')"
proof (induction script arbitrary: acc cur b evs rule: rate_limited_run.induct)
  case 1
  then show ?case by simp
next
  case (2 p rs)
  show ?case
  proof (cases "falsy (next_cursor p)")
    case True
    with "2.prems" show ?thesis by (simp add: users_page_last)
  next
    case False
    with "2.prems" have r: "rate_limited_run rs" by simp
    from "2.IH"[OF False r, of 10 "foldl add_member acc (items p)" "next_cursor p"
        "evs @ [Call (Users_list cur)]"]
    show ?thesis using False by (simp add: users_page_more)
  qed
next
  case (3 e rs)
  then have re: "retriable e" and r: "rate_limited_run rs" by simp_all
  from retriable_wait[OF re "3.prems"(2)] obtain wait where
    w: "int_header (retry_after e) b = Some wait" "0 \<le> wait" by blast
  have b': "0 \<le> min (b * 2) 120" using "3.prems"(2) by simp
  from "3.IH"[OF r b', of acc cur
      "evs @ [Call (Users_list cur), Print (Users_rate_limited wait), Sleep (of_int wait)]"]
  show ?case using re w by (simp add: users_rate_limited retriable_def)
qed

lemma thread_rate_limited_run:
  "rate_limited_run script \<Longrightarrow> 0 \<le> tsl \<Longrightarrow>
   \<exists>evs'. fetch_thread_loop ch pts idx n tsl vb acc cur (script @ rest) evs =
      Some (Returned (acc @ concat (map (\<lambda>p. drop 1 (page_messages p)) (pages_of script))), rest, evs')"
proof (induction script arbitrary: acc cur evs rule: rate_limited_run.induct)
  case 1
  then show ?case by simp
next
  case (2 p rs)
  show ?case
  proof (cases "falsy (next_cursor p)")
    case True
    with "2.prems" show ?thesis by (simp add: thread_page_last)
  next
    case False
    with "2.prems" have r: "rate_limited_run rs" by simp
    from "2.IH"[OF False r "2.prems"(2), of "acc @ drop 1 (page_messages p)" "next_cursor p"
        "evs @ thread_call vb ch pts cur @ [Sleep tsl]"]
    show ?thesis using False "2.prems"(2) by (simp add: thread_page_more)
  qed
next
  case (3 e rs)
  then have re: "retriable e" and r: "rate_limited_run rs" by simp_all
  from retriable_wait[OF re, of 30] obtain wait where
    w: "int_header (retry_after e) 30 = Some wait" "0 \<le> wait" by auto
  from "3.IH"[OF r "3.prems"(2), of acc cur
      "evs @ thread_call vb ch pts cur @ [Print (Thread_rate_limited idx n wait), Sleep (of_int wait)]"]
  show ?case using re w by (simp add: thread_rate_limited retriable_def)
qed

lemma history_rate_limited_run:
  "rate_limited_run script \<Longrightarrow>
   \<exists>evs'. fetch_history_loop flt ch s e acc cur (script @ rest) evs =
      Some (Returned (foldl (history_step flt s e) acc (concat (map items (pages_of script)))), rest, evs')"
proof (induction script arbitrary: acc cur evs rule: rate_limited_run.induct)
  case 1
  then show ?case by simp
next
  case (2 p rs)
  show ?case
  proof (cases "falsy (next_cursor p)")
    case True
    with "2.prems" show ?thesis by (simp add: history_page_last)
  next
    case False
    with "2.prems" have r: "rate_limited_run rs" by simp
    from "2.IH"[OF False r, of "foldl (history_step flt s e) acc (items p)" "next_cursor p"
        "evs @ [Call (Conversations_history ch cur s e), Sleep 1]"]
    show ?thesis using False by (simp add: history_page_more)
  qed
next
  case (3 x rs)
  then have re: "retriable x" and r: "rate_limited_run rs" by simp_all
  from retriable_wait[OF re, of 30] obtain wait where
    w: "int_header (retry_after x) 30 = Some wait" "0 \<le> wait" by auto
  from "3.IH"[OF r, of acc cur
      "evs @ [Call (Conversations_history ch cur s e), Print (History_rate_limited wait),
              Sleep (of_int wait), Sleep 1]"]
  show ?case using re w by (simp add: history_rate_limited retriable_def)
qed

text \<open>
  The requests every loop sends, whatever the outcome: one per answer it used, each with
  the cursor of the last page before it, so that the request after an error repeats the
  request that failed.
\<close>

lemma calls_append [simp]: "calls (xs @ ys) = calls xs @ calls ys"
  by (induction xs rule: calls.induct) simp_all

lemma calls_thread_call [simp]: "calls (thread_call vb ch pts cur) = [Conversations_replies ch pts cur]"
  by (simp add: thread_call_def)

lemma history_requests:
  "fetch_history_loop flt ch s e acc cur rs evs = Some (out, rs', evs') \<Longrightarrow>
   \<exists>used. rs = used @ rs' \<and>
     calls evs' = calls evs @ map (\<lambda>c. Conversations_history ch c s e) (cursors cur used)"
proof (induction rs arbitrary: acc cur evs)
  case Nil
  then show ?case by simp
next
  case (Cons r rs)
  have last: ?case if "rs' = rs" "calls evs' = calls evs @ [Conversations_history ch cur s e]"
  proof -
    have "r # rs = [r] @ rs' \<and>
      calls evs' = calls evs @ map (\<lambda>c. Conversations_history ch c s e) (cursors cur [r])"
      using that by (cases r) simp_all
    then show ?thesis by blast
  qed
  have more: ?case
    if "fetch_history_loop flt ch s e acc1 cur1 rs (evs @ ev1) = Some (out, rs', evs')"
      "calls ev1 = [Conversations_history ch cur s e]" "cursors cur (r # rs) = cur # cursors cur1 rs" 
      "\<And>u. cursors cur (r # u) = cur # cursors cur1 u"
    for acc1 cur1 ev1
  proof -
    from Cons.IH[OF that(1)] obtain used where
      "rs = used @ rs'"
      "calls evs' = calls (evs @ ev1) @ map (\<lambda>c. Conversations_history ch c s e) (cursors cur1 used)"
      by blast
    then have "r # rs = (r # used) @ rs' \<and>
      calls evs' = calls evs @ map (\<lambda>c. Conversations_history ch c s e) (cursors cur (r # used))"
      using that(2) that(4)[of used] by simp
    then show ?thesis by blast
  qed
  show ?case
  proof (cases r)
    case (Returns p)
    show ?thesis
    proof (cases "falsy (next_cursor p)")
      case True
      with Cons.prems Returns show ?thesis by (intro last) (auto simp: history_page_last)
    next
      case False
      with Cons.prems Returns show ?thesis
        by (intro more[of _ "next_cursor p" "[Call (Conversations_history ch cur s e), Sleep 1]"])
           (auto simp: history_page_more)
    qed
  next
    case (Raises x)
    show ?thesis
    proof (cases "error_code x = ''ratelimited''")
      case False
      with Cons.prems Raises show ?thesis by (intro last) (auto simp: history_failed)
    next
      case True
      show ?thesis
      proof (cases "int_header (retry_after x) 30")
        case None
        with Cons.prems Raises True show ?thesis by (intro last) (auto simp: loop_simps Let_def)
      next
        case (Some wait)
        show ?thesis
        proof (cases "wait < 0")
          case True
          with Cons.prems Raises \<open>error_code x = ''ratelimited''\<close> Some show ?thesis
            by (intro last) (auto simp: loop_simps Let_def)
        next
          case False
          with Cons.prems Raises \<open>error_code x = ''ratelimited''\<close> Some show ?thesis
            by (intro more[of _ cur "[Call (Conversations_history ch cur s e), Print (History_rate_limited wait),
                 Sleep (of_int wait), Sleep 1]"])
               (auto simp: history_rate_limited)
        qed
      qed
    qed
  qed
qed

lemma users_requests:
  "fetch_user_map_loop acc cur b rs evs = Some (out, rs', evs') \<Longrightarrow>
   \<exists>used. rs = used @ rs' \<and>
     calls evs' = calls evs @ map Users_list (cursors cur used)"
proof (induction rs arbitrary: acc cur b evs)
  case Nil
  then show ?case by simp
next
  case (Cons r rs)
  have last: ?case if "rs' = rs" "calls evs' = calls evs @ [Users_list cur]"
  proof -
    have "r # rs = [r] @ rs' \<and>
      calls evs' = calls evs @ map Users_list (cursors cur [r])"
      using that by (cases r) simp_all
    then show ?thesis by blast
  qed
  have more: ?case
    if "fetch_user_map_loop acc1 cur1 b1 rs (evs @ ev1) = Some (out, rs', evs')"
      "calls ev1 = [Users_list cur]" "cursors cur (r # rs) = cur # cursors cur1 rs" 
      "\<And>u. cursors cur (r # u) = cur # cursors cur1 u"
    for acc1 cur1 b1 ev1
  proof -
    from Cons.IH[OF that(1)] obtain used where
      "rs = used @ rs'"
      "calls evs' = calls (evs @ ev1) @ map Users_list (cursors cur1 used)"
      by blast
    then have "r # rs = (r # used) @ rs' \<and>
      calls evs' = calls evs @ map Users_list (cursors cur (r # used))"
      using that(2) that(4)[of used] by simp
    then show ?thesis by blast
  qed
  show ?case
  proof (cases r)
    case (Returns p)
    show ?thesis
    proof (cases "falsy (next_cursor p)")
      case True
      with Cons.prems Returns show ?thesis by (intro last) (auto simp: users_page_last)
    next
      case False
      with Cons.prems Returns show ?thesis
        by (intro more[of _ "next_cursor p" 10 "[Call (Users_list cur)]"])
           (auto simp: users_page_more)
    qed
  next
    case (Raises x)
    show ?thesis
    proof (cases "error_code x = ''ratelimited''")
      case False
      with Cons.prems Raises show ?thesis by (intro last) (auto simp: users_failed)
    next
      case True
      show ?thesis
      proof (cases "int_header (retry_after x) b")
        case None
        with Cons.prems Raises True show ?thesis by (intro last) (auto simp: loop_simps Let_def)
      next
        case (Some wait)
        show ?thesis
        proof (cases "wait < 0")
          case True
          with Cons.prems Raises \<open>error_code x = ''ratelimited''\<close> Some show ?thesis
            by (intro last) (auto simp: loop_simps Let_def)
        next
          case False
          with Cons.prems Raises \<open>error_code x = ''ratelimited''\<close> Some show ?thesis
            by (intro more[of _ cur "min (b * 2) 120" "[Call (Users_list cur), Print (Users_rate_limited wait),
                 Sleep (of_int wait)]"])
               (auto simp: users_rate_limited)
        qed
      qed
    qed
  qed
qed

lemma thread_requests:
  "fetch_thread_loop ch pts idx n tsl vb acc cur rs evs = Some (out, rs', evs') \<Longrightarrow>
   \<exists>used. rs = used @ rs' \<and>
     calls evs' = calls evs @ map (Conversations_replies ch pts) (cursors cur used)"
proof (induction rs arbitrary: acc cur evs)
  case Nil
  then show ?case by simp
next
  case (Cons r rs)
  have last: ?case if "rs' = rs" "calls evs' = calls evs @ [Conversations_replies ch pts cur]"
  proof -
    have "r # rs = [r] @ rs' \<and>
      calls evs' = calls evs @ map (Conversations_replies ch pts) (cursors cur [r])"
      using that by (cases r) simp_all
    then show ?thesis by blast
  qed
  have more: ?case
    if "fetch_thread_loop ch pts idx n tsl vb acc1 cur1 rs (evs @ ev1) = Some (out, rs', evs')"
      "calls ev1 = [Conversations_replies ch pts cur]" "cursors cur (r # rs) = cur # cursors cur1 rs" 
      "\<And>u. cursors cur (r # u) = cur # cursors cur1 u"
    for acc1 cur1 ev1
  proof -
    from Cons.IH[OF that(1)] obtain used where
      "rs = used @ rs'"
      "calls evs' = calls (evs @ ev1) @ map (Conversations_replies ch pts) (cursors cur1 used)"
      by blast
    then have "r # rs = (r # used) @ rs' \<and>
      calls evs' = calls evs @ map (Conversations_replies ch pts) (cursors cur (r # used))"
      using that(2) that(4)[of used] by simp
    then show ?thesis by blast
  qed
  show ?case
  proof (cases r)
    case (Returns p)
    show ?thesis
    proof (cases "falsy (next_cursor p)")
      case True
      with Cons.prems Returns show ?thesis by (intro last) (auto simp: thread_page_last)
    next
      case False
      show ?thesis
      proof (cases "tsl < 0")
        case True
        with Cons.prems Returns \<open>\<not> falsy (next_cursor p)\<close> show ?thesis
          by (intro last) (auto simp: loop_simps Let_def thread_call_def)
      next
        case False
        with Cons.prems Returns \<open>\<not> falsy (next_cursor p)\<close> show ?thesis
          by (intro more[of _ "next_cursor p" "thread_call vb ch pts cur @ [Sleep tsl]"])
             (auto simp: thread_page_more)
      qed
    qed
  next
    case (Raises x)
    show ?thesis
    proof (cases "error_code x = ''ratelimited''")
      case False
      with Cons.prems Raises show ?thesis by (intro last) (auto simp: thread_failed)
    next
      case True
      show ?thesis
      proof (cases "int_header (retry_after x) 30")
        case None
        with Cons.prems Raises True show ?thesis by (intro last) (auto simp: loop_simps Let_def thread_call_def)
      next
        case (Some wait)
        show ?thesis
        proof (cases "wait < 0")
          case True
          with Cons.prems Raises \<open>error_code x = ''ratelimited''\<close> Some show ?thesis
            by (intro last) (auto simp: loop_simps Let_def thread_call_def)
        next
          case False
          with Cons.prems Raises \<open>error_code x = ''ratelimited''\<close> Some show ?thesis
            by (intro more[of _ cur "thread_call vb ch pts cur @ [Print (Thread_rate_limited idx n wait),
                 Sleep (of_int wait)]"])
               (auto simp: thread_rate_limited)
        qed
      qed
    qed
  qed
qed

lemma channels_requests:
  "fetch_all_channels_loop types acc cur rs evs = Some (out, rs', evs') \<Longrightarrow>
   \<exists>used. rs = used @ rs' \<and>
     calls evs' = calls evs @ map (Conversations_list types) (cursors cur used)"
proof (induction rs arbitrary: acc cur evs)
  case Nil
  then show ?case by simp
next
  case (Cons r rs)
  have last: ?case if "rs' = rs" "calls evs' = calls evs @ [Conversations_list types cur]"
  proof -
    have "r # rs = [r] @ rs' \<and>
      calls evs' = calls evs @ map (Conversations_list types) (cursors cur [r])"
      using that by (cases r) simp_all
    then show ?thesis by blast
  qed
  show ?case
  proof (cases r)
    case (Raises x)
    with Cons.prems show ?thesis by (intro last) (auto simp: channels_raises)
  next
    case (Returns p)
    show ?thesis
    proof (cases "falsy (next_cursor p)")
      case True
      with Cons.prems Returns show ?thesis by (intro last) (auto simp: channels_page_last)
    next
      case False
      with Cons.prems Returns have
        "fetch_all_channels_loop types (acc @ items p) (next_cursor p) rs
           (evs @ [Call (Conversations_list types cur)]) = Some (out, rs', evs')"
        by (simp add: channels_page_more)
      from Cons.IH[OF this] obtain used where
        "rs = used @ rs'"
        "calls evs' = calls (evs @ [Call (Conversations_list types cur)]) @
           map (Conversations_list types) (cursors (next_cursor p) used)"
        by blast
      then have "r # rs = (r # used) @ rs' \<and>
        calls evs' = calls evs @ map (Conversations_list types) (cursors cur (r # used))"
        using Returns by simp
      then show ?thesis by blast
    qed
  qed
qed

text \<open>
  The three loops with an \<open>except\<close> clause, on one example each way: after a rate limit
  \<open>fetch_user_map\<close> prints, sleeps for the time of the \<open>Retry-After\<close> header and sends the
  same request again; after another error it prints and returns what it has. (The
  general statements are the lemmas \<open>users_rate_limited\<close>, \<open>thread_rate_limited\<close>,
  \<open>history_rate_limited\<close> and \<open>users_failed\<close>, \<open>thread_failed\<close>, \<open>history_failed\<close>.)
\<close>

lemma sibling_rate_limit_retry:
  "fetch_user_map
     [Raises (SlackApiError ''ratelimited'' (Header_int 1)),
      Returns \<lparr>items = [\<lparr>u_id = ''U1'', u_real_name = Some ''Ann'', u_name = None\<rparr>], next_cursor = None\<rparr>] [] =
   Some (Returned [''U1'' \<mapsto> ''Ann''], [],
         [Call (Users_list None), Print (Users_rate_limited 1), Sleep 1, Call (Users_list None)])"
  by (simp add: fetch_user_map_def run_simps add_member_def py_or_def)

lemma sibling_error_stops:
  "fetch_user_map
     [Returns \<lparr>items = [\<lparr>u_id = ''U1'', u_real_name = Some ''Ann'', u_name = None\<rparr>], next_cursor = Some ''c1''\<rparr>,
      Raises (SlackApiError ''internal_error'' No_header),
      Returns \<lparr>items = [\<lparr>u_id = ''U2'', u_real_name = Some ''Bob'', u_name = None\<rparr>], next_cursor = None\<rparr>] [] =
   Some (Returned [''U1'' \<mapsto> ''Ann''],
         [Returns \<lparr>items = [\<lparr>u_id = ''U2'', u_real_name = Some ''Bob'', u_name = None\<rparr>], next_cursor = None\<rparr>],
         [Call (Users_list None), Call (Users_list (Some ''c1'')),
          Print (Users_failed (SlackApiError ''internal_error'' No_header))])"
  by (simp add: fetch_user_map_def run_simps add_member_def py_or_def)

text \<open>
  Claim C2 does not hold of \<open>fetch_all_channels\<close>, whose loop has no \<open>try\<close>: when
  \<open>conversations.list\<close> answers with a rate limit, the error leaves the function. There is
  no sleep and no second request, and the page the server would have sent next is never
  asked for.
\<close>

theorem fetch_all_channels_rate_limit_raises:
  "fetch_all_channels ''public_channel''
     [Raises (SlackApiError ''ratelimited'' (Header_int 1)),
      Returns \<lparr>items = [''general''], next_cursor = None\<rparr>] [] =
   Some (Raised (Slack_api_error (SlackApiError ''ratelimited'' (Header_int 1))),
         [Returns \<lparr>items = [''general''], next_cursor = None\<rparr>],
         [Call (Conversations_list ''public_channel'' None)])"
  by (simp add: fetch_all_channels_def run_simps)

text \<open>
  Claim C4 does not hold of \<open>fetch_all_channels\<close> either: an error other than a rate limit
  also leaves the function. Nothing is printed, and the channels of the first page are
  not returned.
\<close>

theorem fetch_all_channels_error_raises:
  "fetch_all_channels ''public_channel''
     [Returns \<lparr>items = [''general''], next_cursor = Some ''c1''\<rparr>,
      Raises (SlackApiError ''internal_error'' No_header)] [] =
   Some (Raised (Slack_api_error (SlackApiError ''internal_error'' No_header)), [],
         [Call (Conversations_list ''public_channel'' None),
          Call (Conversations_list ''public_channel'' (Some ''c1''))])"
  by (simp add: fetch_all_channels_def run_simps)

subsection \<open>Threads and the subtype filter\<close>

lemma is_parent_msg [simp]: "is_parent (msg t th st) \<longleftrightarrow> th = Some t"
  by (simp add: is_parent_def)







end
